theory Spec2Isabelle
  imports Complex_Main "HOL-Library.Log_Nat"
begin

section \<open>Python values and errors\<close>

text \<open>
  The program is \<^verbatim>\<open>sex_stats.py\<close>. A Python \<^verbatim>\<open>str\<close> is a sequence of Unicode code
  points; the texts that the parsers read are modelled as lists of numbers, and \<open>str\<close>
  turns a literal of this theory into such a text. (Column names, labels and the texts
  in the cells of a data frame, which the program only compares and copies, are
  literals of this theory.) The exceptions that the modelled functions can raise are values of
  \<open>py_error\<close>; a function that may raise returns \<open>py_error + 'a\<close>.
\<close>

datatype py_error = ValueError | TypeError | KeyError | AttributeError

type_synonym pystr = "nat list"

definition str :: "string \<Rightarrow> pystr" where
  "str s = map of_char s"

text \<open>
  The classes \<^verbatim>\<open>\d\<close> and \<^verbatim>\<open>\w\<close> of a \<^verbatim>\<open>str\<close> pattern, and \<^verbatim>\<open>int\<close>, read the Unicode
  database of the interpreter: \<^verbatim>\<open>\d\<close> is every code point of the category of decimal
  digits, \<^verbatim>\<open>int\<close> gives such a digit its value from 0 to 9, and \<^verbatim>\<open>\w\<close> is every
  alphanumeric code point and the underscore. On ASCII these are \<^verbatim>\<open>0-9\<close> and
  \<^verbatim>\<open>a-zA-Z0-9_\<close>. Beyond ASCII the database depends on the interpreter's version and
  is a parameter \<open>U\<close> of the model: \<open>decimal_value U c\<close> is the digit that the code point
  \<open>c\<close> stands for, if it is a decimal digit, and \<open>alnum U c\<close> says whether \<open>c\<close> is
  alphanumeric.
\<close>

datatype digit = D0 | D1 | D2 | D3 | D4 | D5 | D6 | D7 | D8 | D9

fun digit_int :: "digit \<Rightarrow> int" where
  "digit_int D0 = 0" | "digit_int D1 = 1" | "digit_int D2 = 2" | "digit_int D3 = 3"
| "digit_int D4 = 4" | "digit_int D5 = 5" | "digit_int D6 = 6" | "digit_int D7 = 7"
| "digit_int D8 = 8" | "digit_int D9 = 9"

record unicode =
  decimal_value :: "nat \<Rightarrow> digit option"
  alnum :: "nat \<Rightarrow> bool"

section \<open>Regular expressions: \<^verbatim>\<open>re.match\<close>\<close>

text \<open>
  The patterns of the program use literals, the classes \<^verbatim>\<open>\d\<close>, \<^verbatim>\<open>\w\<close>, \<^verbatim>\<open>.\<close> and
  bracket sets, concatenation, alternation \<^verbatim>\<open>|\<close>, the greedy \<^verbatim>\<open>?\<close>, the greedy \<^verbatim>\<open>+\<close>
  (on a class only: \<^verbatim>\<open>.+\<close>, \<^verbatim>\<open>\w+\<close>), the count \<^verbatim>\<open>{2}\<close> and named groups
  \<^verbatim>\<open>(?P<name>...)\<close>. An unnamed group only brackets, since the program reads groups
  by name. \<open>Eps\<close> is the empty pattern. The \<^verbatim>\<open>^\<close> that opens the program's patterns
  is left out: \<^verbatim>\<open>re.match\<close> matches at the start of the string anyway. The characters
  written in a pattern are ASCII; a bracket range is a range of code points.
\<close>

datatype cclass =
    Digit
  | Word
  | Dot
  | OneOf string
  | Range char char

datatype regex =
    Lit char
  | Cls cclass
  | Seq regex regex
  | Alt regex regex
  | Opt regex
  | Plus cclass
  | Eps
  | Group string regex

fun in_class :: "unicode \<Rightarrow> cclass \<Rightarrow> nat \<Rightarrow> bool" where
  "in_class U Digit c =
     (if c < 128 then c \<in> set (str ''0123456789'') else decimal_value U c \<noteq> None)"
| "in_class U Word c =
     (if c < 128
      then c \<in> set (str ''abcdefghijklmnopqrstuvwxyzABCDEFGHIJKLMNOPQRSTUVWXYZ0123456789_'')
      else alnum U c)"
| "in_class U Dot c = (c \<noteq> 10)"
| "in_class U (OneOf cs) c = (c \<in> set (str cs))"
| "in_class U (Range lo hi) c = (of_char lo \<le> c \<and> c \<le> of_char hi)"

text \<open>\<^verbatim>\<open>r{n}\<close> is \<open>n\<close> copies of \<open>r\<close>; a literal text is its characters in sequence.\<close>

fun rep :: "nat \<Rightarrow> regex \<Rightarrow> regex" where
  "rep 0 r = Eps"
| "rep (Suc n) r = Seq r (rep n r)"

fun lits :: "string \<Rightarrow> regex" where
  "lits [] = Eps"
| "lits (c # cs) = Seq (Lit c) (lits cs)"

fun seqs :: "regex list \<Rightarrow> regex" where
  "seqs [] = Eps"
| "seqs (r # rs) = Seq r (seqs rs)"

text \<open>
  A matcher state is the text still to read and the groups captured so far, the
  latest capture of a name first. \<open>ms U r st\<close> lists every way in which \<open>r\<close> matches
  at the start of the text, in the order in which a backtracking matcher tries them:
  the first alternative before the second, the longer repetition before the shorter,
  the optional part present before absent.
\<close>

type_synonym env = "(string \<times> pystr) list"
type_synonym mstate = "pystr \<times> env"

fun many1 :: "(nat \<Rightarrow> bool) \<Rightarrow> pystr \<Rightarrow> pystr list" where
  "many1 p [] = []"
| "many1 p (c # cs) = (if p c then many1 p cs @ [cs] else [])"

fun ms :: "unicode \<Rightarrow> regex \<Rightarrow> mstate \<Rightarrow> mstate list" where
  "ms U (Lit c) (s, e) =
     (case s of [] \<Rightarrow> [] | x # xs \<Rightarrow> if x = of_char c then [(xs, e)] else [])"
| "ms U (Cls k) (s, e) =
     (case s of [] \<Rightarrow> [] | x # xs \<Rightarrow> if in_class U k x then [(xs, e)] else [])"
| "ms U (Seq a b) st = concat (map (ms U b) (ms U a st))"
| "ms U (Alt a b) st = ms U a st @ ms U b st"
| "ms U (Opt a) st = ms U a st @ [st]"
| "ms U Eps st = [st]"
| "ms U (Plus k) (s, e) = map (\<lambda>r. (r, e)) (many1 (in_class U k) s)"
| "ms U (Group n a) (s, e) =
     map (\<lambda>(r, e'). (r, (n, take (length s - length r) s) # e')) (ms U a (s, e))"

text \<open>
  \<^verbatim>\<open>re.match(pattern, string)\<close>: the first match at the start of the string, or
  \<^verbatim>\<open>None\<close>. The match object is represented by its captured groups;
  \<^verbatim>\<open>groupdict()[name]\<close> and \<^verbatim>\<open>matched[name]\<close> are \<open>map_of\<close> on them, \<^verbatim>\<open>None\<close> for a
  group that took no part in the match.
\<close>

definition re_match :: "unicode \<Rightarrow> regex \<Rightarrow> pystr \<Rightarrow> env option" where
  "re_match U r s = (case ms U r (s, []) of [] \<Rightarrow> None | (rest, e) # _ \<Rightarrow> Some e)"

section \<open>The patterns of class \<^verbatim>\<open>Regex\<close>\<close>

text \<open>
  \<^verbatim>\<open>
  class Regex(str, Enum):
      Year = r'(?P<Year>(19|2\d)?\d{2})'
      Month = r'(?P<Month>1[0-2]|0\d)'
      Day = r'(?P<Day>[123]\d|0\d)'
      Hour = r'(?P<Hour>[01]?\d|2[0-3])'
      Minute = r'(?P<Minute>[0-5]\d)'
      Second = r'(?P<Second>[0-5]\d)'
      Time = fr'{Hour}:{Minute}(:{Second})?'
      Repeat = r'(?P<Repeat>\d) times?'
      Kind = r'(?P<Kind>\w+( \(\w+\))?)'
  \<close>
  Where a pattern is built by an f-string from members of \<^verbatim>\<open>Regex\<close>, the member's
  value (its pattern text) is inserted, as the interpreters before Python 3.11 format
  a member of an enumeration that is also a \<^verbatim>\<open>str\<close>.
\<close>

definition Regex_Year :: regex where
  "Regex_Year =
     Group ''Year''
       (Seq (Opt (Alt (lits ''19'') (Seq (Lit CHR ''2'') (Cls Digit)))) (rep 2 (Cls Digit)))"

definition Regex_Month :: regex where
  "Regex_Month =
     Group ''Month''
       (Alt (Seq (Lit CHR ''1'') (Cls (Range CHR ''0'' CHR ''2'')))
            (Seq (Lit CHR ''0'') (Cls Digit)))"

definition Regex_Day :: regex where
  "Regex_Day =
     Group ''Day''
       (Alt (Seq (Cls (OneOf ''123'')) (Cls Digit))
            (Seq (Lit CHR ''0'') (Cls Digit)))"

definition Regex_Hour :: regex where
  "Regex_Hour =
     Group ''Hour''
       (Alt (Seq (Opt (Cls (OneOf ''01''))) (Cls Digit))
            (Seq (Lit CHR ''2'') (Cls (Range CHR ''0'' CHR ''3''))))"

definition Regex_Minute :: regex where
  "Regex_Minute = Group ''Minute'' (Seq (Cls (Range CHR ''0'' CHR ''5'')) (Cls Digit))"

definition Regex_Second :: regex where
  "Regex_Second = Group ''Second'' (Seq (Cls (Range CHR ''0'' CHR ''5'')) (Cls Digit))"

definition Regex_Time :: regex where
  "Regex_Time =
     seqs [Regex_Hour, Lit CHR '':'', Regex_Minute, Opt (Seq (Lit CHR '':'') Regex_Second)]"

definition Regex_Repeat :: regex where
  "Regex_Repeat = seqs [Group ''Repeat'' (Cls Digit), lits '' time'', Opt (Lit CHR ''s'')]"

definition Regex_Kind :: regex where
  "Regex_Kind =
     Group ''Kind''
       (Seq (Plus Word) (Opt (seqs [lits '' ('', Plus Word, Lit CHR '')''])))"

section \<open>\<^verbatim>\<open>TimeStamp\<close>, \<^verbatim>\<open>datetime\<close> and \<^verbatim>\<open>LogLine\<close>\<close>

text \<open>
  \<^verbatim>\<open>TimeStamp\<close> is a named tuple of six fields. \<^verbatim>\<open>parse_time_str\<close> fills it from
  \<^verbatim>\<open>groupdict()\<close>, so each field holds the text of a group, or \<^verbatim>\<open>None\<close> for a group
  that did not take part in the match. Every field is passed by keyword, so the
  defaults of the class (\<^verbatim>\<open>Hour: int = 0\<close> and so on) are never used there.
\<close>

record TimeStamp =
  Year :: "pystr option"
  Month :: "pystr option"
  Day :: "pystr option"
  Hour :: "pystr option"
  Minute :: "pystr option"
  Second :: "pystr option"

text \<open>
  \<^verbatim>\<open>int(s)\<close> on a text of decimal digits, of any script: the number that the digits
  denote in base ten. Any other text is reported as \<^verbatim>\<open>ValueError\<close> (the groups of the
  patterns above capture decimal digits only).
\<close>

definition digit_val :: "unicode \<Rightarrow> nat \<Rightarrow> int" where
  "digit_val U c =
     (if c < 128 then int c - 48
      else case decimal_value U c of None \<Rightarrow> 0 | Some d \<Rightarrow> digit_int d)"

definition int_of_str :: "unicode \<Rightarrow> pystr \<Rightarrow> py_error + int" where
  "int_of_str U s =
     (if s \<noteq> [] \<and> list_all (in_class U Digit) s
      then Inr (foldl (\<lambda>acc c. 10 * acc + digit_val U c) 0 s)
      else Inl ValueError)"

text \<open>
  \<^verbatim>\<open>datetime(year, month, day, hour, minute, second)\<close> of the standard library: the
  constructor checks each argument's range, in this order, and raises
  \<^verbatim>\<open>ValueError\<close> at the first one out of range.
\<close>

record datetime =
  dt_year :: int
  dt_month :: int
  dt_day :: int
  dt_hour :: int
  dt_minute :: int
  dt_second :: int

definition is_leap :: "int \<Rightarrow> bool" where
  "is_leap y = (y mod 4 = 0 \<and> (y mod 100 \<noteq> 0 \<or> y mod 400 = 0))"

definition days_in_month :: "int \<Rightarrow> int \<Rightarrow> int" where
  "days_in_month y m =
     (if m = 2 then (if is_leap y then 29 else 28)
      else if m \<in> {4, 6, 9, 11} then 30 else 31)"

definition datetime_new :: "int \<Rightarrow> int \<Rightarrow> int \<Rightarrow> int \<Rightarrow> int \<Rightarrow> int \<Rightarrow> py_error + datetime" where
  "datetime_new y m d h mi s =
     (if \<not> (1 \<le> y \<and> y \<le> 9999) then Inl ValueError
      else if \<not> (1 \<le> m \<and> m \<le> 12) then Inl ValueError
      else if \<not> (1 \<le> d \<and> d \<le> days_in_month y m) then Inl ValueError
      else if \<not> (0 \<le> h \<and> h \<le> 23) then Inl ValueError
      else if \<not> (0 \<le> mi \<and> mi \<le> 59) then Inl ValueError
      else if \<not> (0 \<le> s \<and> s \<le> 59) then Inl ValueError
      else Inr \<lparr>dt_year = y, dt_month = m, dt_day = d,
                dt_hour = h, dt_minute = mi, dt_second = s\<rparr>)"

text \<open>
  \<^verbatim>\<open>
  @property
  def _datetime(self):
      return datetime(*(int(_) if _ else 0 for _ in self))
  \<close>
  A field that is \<^verbatim>\<open>None\<close> or empty counts as 0; the others go through \<^verbatim>\<open>int\<close>,
  from the first field to the last, before \<^verbatim>\<open>datetime\<close> is called.
\<close>

definition int_or_0 :: "unicode \<Rightarrow> pystr option \<Rightarrow> py_error + int" where
  "int_or_0 U f =
     (case f of None \<Rightarrow> Inr 0 | Some s \<Rightarrow> if s = [] then Inr 0 else int_of_str U s)"

definition TimeStamp_datetime :: "unicode \<Rightarrow> TimeStamp \<Rightarrow> py_error + datetime" where
  "TimeStamp_datetime U ts =
     (case int_or_0 U (Year ts) of Inl err \<Rightarrow> Inl err | Inr y \<Rightarrow>
      case int_or_0 U (Month ts) of Inl err \<Rightarrow> Inl err | Inr m \<Rightarrow>
      case int_or_0 U (Day ts) of Inl err \<Rightarrow> Inl err | Inr d \<Rightarrow>
      case int_or_0 U (Hour ts) of Inl err \<Rightarrow> Inl err | Inr h \<Rightarrow>
      case int_or_0 U (Minute ts) of Inl err \<Rightarrow> Inl err | Inr mi \<Rightarrow>
      case int_or_0 U (Second ts) of Inl err \<Rightarrow> Inl err | Inr s \<Rightarrow>
      datetime_new y m d h mi s)"

text \<open>
  \<^verbatim>\<open>LogLine\<close>: \<^verbatim>\<open>parse_log_line\<close> stores the \<^verbatim>\<open>datetime\<close> in the field \<^verbatim>\<open>TimeStamp\<close>.
\<close>

record LogLine =
  TimeStamp :: datetime
  Repeat :: int
  Kind :: "pystr option"

section \<open>\<^verbatim>\<open>parse_time_str\<close> and \<^verbatim>\<open>parse_log_line\<close>\<close>

text \<open>
  \<^verbatim>\<open>
  def parse_time_str(time_str: str) -> TimeStamp:
      acceptable_regex = {
          fr'^{Regex.Year}-{Regex.Month}-{Regex.Day}\*{Regex.Time}',
          fr'^{Regex.Day}/{Regex.Month}/{Regex.Year} {Regex.Time}'
      }
      for regex in acceptable_regex:
          if (matched := match(regex, time_str)):
              return TimeStamp(**matched.groupdict())
  \<close>
  The two patterns are the elements of a set, and the loop visits a set in an order
  that the language does not fix. \<open>parse_time_str_in\<close> is the loop over the patterns in
  a given order; \<open>parse_time_str\<close> takes them as written, and
  \<open>parse_time_str_order\<close> below shows that the other order returns the same.
\<close>

definition regex_dash :: regex where
  "regex_dash =
     seqs [Regex_Year, Lit CHR ''-'', Regex_Month, Lit CHR ''-'', Regex_Day,
           Lit CHR ''*'', Regex_Time]"

definition regex_slash :: regex where
  "regex_slash =
     seqs [Regex_Day, Lit CHR ''/'', Regex_Month, Lit CHR ''/'', Regex_Year,
           Lit CHR '' '', Regex_Time]"

definition groupdict :: "env \<Rightarrow> TimeStamp" where
  "groupdict e =
     \<lparr>Year = map_of e ''Year'', Month = map_of e ''Month'', Day = map_of e ''Day'',
      Hour = map_of e ''Hour'', Minute = map_of e ''Minute'', Second = map_of e ''Second''\<rparr>"

fun parse_time_str_in :: "unicode \<Rightarrow> regex list \<Rightarrow> pystr \<Rightarrow> TimeStamp option" where
  "parse_time_str_in U [] time_str = None"
| "parse_time_str_in U (regex # rest) time_str =
     (case re_match U regex time_str of
        Some matched \<Rightarrow> Some (groupdict matched)
      | None \<Rightarrow> parse_time_str_in U rest time_str)"

definition parse_time_str :: "unicode \<Rightarrow> pystr \<Rightarrow> TimeStamp option" where
  "parse_time_str U time_str = parse_time_str_in U [regex_dash, regex_slash] time_str"

text \<open>
  \<^verbatim>\<open>
  def parse_log_line(line: str) -> LogLine:
      acceptable_regex = fr'^.+ {Regex.Repeat} {Regex.Kind}'
      if (timestamp := parse_time_str(line)):
          matched = match(acceptable_regex, line)
          return LogLine(timestamp._datetime, int(matched['Repeat']),
                         matched['Kind'])
  \<close>
  A \<^verbatim>\<open>TimeStamp\<close> is a tuple of six fields and so is true in the \<^verbatim>\<open>if\<close>. The result is
  \<open>Inr None\<close> where the function returns \<^verbatim>\<open>None\<close>, \<open>Inr (Some r)\<close> where it returns a
  record and \<open>Inl err\<close> where it raises: \<^verbatim>\<open>timestamp._datetime\<close> is evaluated first
  and can raise \<^verbatim>\<open>ValueError\<close>; subscripting \<^verbatim>\<open>matched\<close> when it is \<^verbatim>\<open>None\<close> raises
  \<^verbatim>\<open>TypeError\<close>.
\<close>

definition log_regex :: regex where
  "log_regex = seqs [Plus Dot, Lit CHR '' '', Regex_Repeat, Lit CHR '' '', Regex_Kind]"

definition parse_log_line :: "unicode \<Rightarrow> pystr \<Rightarrow> py_error + LogLine option" where
  "parse_log_line U line =
     (case parse_time_str U line of
        None \<Rightarrow> Inr None
      | Some timestamp \<Rightarrow>
          (let matched = re_match U log_regex line in
           case TimeStamp_datetime U timestamp of
             Inl err \<Rightarrow> Inl err
           | Inr dt \<Rightarrow>
               (case matched of
                  None \<Rightarrow> Inl TypeError
                | Some groups \<Rightarrow>
                    (case map_of groups ''Repeat'' of
                       None \<Rightarrow> Inl TypeError
                     | Some r \<Rightarrow>
                         (case int_of_str U r of
                            Inl err \<Rightarrow> Inl err
                          | Inr n \<Rightarrow>
                              Inr (Some \<lparr>TimeStamp = dt, Repeat = n,
                                         Kind = map_of groups ''Kind''\<rparr>))))))"

section \<open>Data frames and \<^verbatim>\<open>read_activity_whealth\<close>\<close>

text \<open>
  A data frame of the library pandas is modelled by the length of its index and its
  columns in order, each a name and the cells from the first row to the last. The
  operations below are the ones the program calls, with the library's behaviour:
  \<^verbatim>\<open>drop(columns=...)\<close> raises \<^verbatim>\<open>KeyError\<close> when a label is not a column;
  \<^verbatim>\<open>rename(columns=...)\<close> leaves the other names alone; the attribute \<^verbatim>\<open>df.name\<close> is the
  column of that name and raises \<^verbatim>\<open>AttributeError\<close> when there is none (when several
  columns have the name, the attribute is a frame, which \<^verbatim>\<open>to_datetime\<close> refuses with
  \<^verbatim>\<open>ValueError\<close>); \<^verbatim>\<open>df[name] = v\<close> replaces the column of that name in place or adds
  it as the last one, a scalar filling every row.
\<close>

datatype cell = Str string | Num int | Stamp datetime

record frame =
  nrows :: nat
  columns :: "(string \<times> cell list) list"

definition drop_columns :: "string list \<Rightarrow> frame \<Rightarrow> py_error + frame" where
  "drop_columns labels df =
     (if list_all (\<lambda>l. l \<in> fst ` set (columns df)) labels
      then Inr (df\<lparr>columns := filter (\<lambda>col. fst col \<notin> set labels) (columns df)\<rparr>)
      else Inl KeyError)"

definition rename_columns :: "(string \<times> string) list \<Rightarrow> frame \<Rightarrow> frame" where
  "rename_columns mapper df =
     df\<lparr>columns :=
          map (\<lambda>col. (case map_of mapper (fst col) of None \<Rightarrow> fst col | Some c \<Rightarrow> c, snd col))
            (columns df)\<rparr>"

definition get_column :: "string \<Rightarrow> frame \<Rightarrow> py_error + cell list" where
  "get_column c df =
     (case filter (\<lambda>col. fst col = c) (columns df) of
        [] \<Rightarrow> Inl AttributeError
      | [col] \<Rightarrow> Inr (snd col)
      | _ \<Rightarrow> Inl ValueError)"

fun update_column :: "string \<Rightarrow> cell list \<Rightarrow> (string \<times> cell list) list \<Rightarrow> (string \<times> cell list) list" where
  "update_column c v [] = [(c, v)]"
| "update_column c v (col # cols) =
     (if fst col = c then (c, v) # cols else col # update_column c v cols)"

definition set_column :: "string \<Rightarrow> cell list \<Rightarrow> frame \<Rightarrow> frame" where
  "set_column c v df = df\<lparr>columns := update_column c v (columns df)\<rparr>"

text \<open>
  \<^verbatim>\<open>
  def read_activity_whealth(fp: str):
      df = read_csv(fp, sep=';')
      df = df.drop(columns=['unit', 'name', 'source'], axis=1)\
             .rename(columns={'startdate': 'TimeStamp', 'value': 'Repeat'})
      df['TimeStamp'] = to_datetime(df.TimeStamp)
      df['Kind'] = 'Unknown'
      return df
  \<close>
  The library functions \<^verbatim>\<open>read_csv\<close> (from a path and a separator to a frame) and
  \<^verbatim>\<open>to_datetime\<close> (from a column to the column of its time stamps) are parameters of
  the model; both can raise.
\<close>

definition read_activity_whealth ::
  "('fp \<Rightarrow> string \<Rightarrow> py_error + frame) \<Rightarrow> (cell list \<Rightarrow> py_error + cell list) \<Rightarrow> 'fp
     \<Rightarrow> py_error + frame" where
  "read_activity_whealth read_csv to_datetime fp =
     (case read_csv fp '';'' of Inl err \<Rightarrow> Inl err | Inr df0 \<Rightarrow>
      case drop_columns [''unit'', ''name'', ''source''] df0 of Inl err \<Rightarrow> Inl err | Inr df1 \<Rightarrow>
      let df = rename_columns [(''startdate'', ''TimeStamp''), (''value'', ''Repeat'')] df1 in
      case get_column ''TimeStamp'' df of Inl err \<Rightarrow> Inl err | Inr col \<Rightarrow>
      case to_datetime col of Inl err \<Rightarrow> Inl err | Inr stamps \<Rightarrow>
      let df = set_column ''TimeStamp'' stamps df;
          df = set_column ''Kind'' (replicate (nrows df) (Str ''Unknown'')) df
      in Inr df)"

section \<open>\<^verbatim>\<open>group_data\<close>\<close>

text \<open>
  \<^verbatim>\<open>
  def group_data(df, offset_alias: str = 'M'):
      available_offset = ('W', 'SM', 'M', 'Q', 'A', 'H')
      if offset_alias in available_offset:
          return df.resample(offset_alias, on='TimeStamp')
  \<close>
  The method \<^verbatim>\<open>resample\<close> of the library is a parameter; its result, whatever it is,
  is what \<^verbatim>\<open>group_data\<close> returns. Falling off the end returns \<^verbatim>\<open>None\<close>. In the
  library's table of offset aliases \<^verbatim>\<open>W\<close> is the week, \<^verbatim>\<open>SM\<close> the half month, \<^verbatim>\<open>M\<close>
  the month, \<^verbatim>\<open>Q\<close> the quarter, \<^verbatim>\<open>A\<close> the year and \<^verbatim>\<open>H\<close> the hour.
\<close>

definition available_offset :: "string list" where
  "available_offset = [''W'', ''SM'', ''M'', ''Q'', ''A'', ''H'']"

definition group_data :: "('df \<Rightarrow> string \<Rightarrow> string \<Rightarrow> 'r) \<Rightarrow> 'df \<Rightarrow> string \<Rightarrow> 'r option" where
  "group_data resample df offset_alias =
     (if offset_alias \<in> set available_offset
      then Some (resample df offset_alias ''TimeStamp'')
      else None)"

section \<open>Python numbers and \<^verbatim>\<open>time_function\<close>\<close>

text \<open>
  A Python number, an \<^verbatim>\<open>int\<close> or a \<^verbatim>\<open>float\<close>, is modelled by its exact value, a
  rational. \<open>float_of x\<close> is the double nearest to \<open>x\<close>, ties to the even mantissa
  (53 bits; the values of this program are far from overflow and underflow):
  \<open>ilog2 x\<close> is the exponent \<open>e\<close> with \<open>2 ^ e \<le> x < 2 ^ (e + 1)\<close>, and the doubles of
  that binade are the multiples of \<open>2 ^ (e - 52)\<close>. Every arithmetic operation on
  floats is the exact operation followed by \<open>float_of\<close>.
\<close>

definition round_half_even :: "rat \<Rightarrow> int" where
  "round_half_even x =
     (let f = \<lfloor>x\<rfloor>; d = x - of_int f
      in if d < 1 / 2 then f else if 1 / 2 < d then f + 1 else if even f then f else f + 1)"

definition pow2 :: "int \<Rightarrow> rat" where
  "pow2 k = (if 0 \<le> k then 2 ^ nat k else 1 / 2 ^ nat (- k))"

definition ilog2 :: "rat \<Rightarrow> int" where
  "ilog2 x = (if 1 \<le> x then bitlen \<lfloor>x\<rfloor> - 1 else - bitlen (\<lceil>1 / x\<rceil> - 1))"

definition float_of :: "rat \<Rightarrow> rat" where
  "float_of x =
     (if x = 0 then 0
      else let u = pow2 (ilog2 \<bar>x\<bar> - 52) in of_int (round_half_even (x / u)) * u)"

text \<open>
  \<^verbatim>\<open>a / b\<close> on two \<^verbatim>\<open>int\<close>s is the correctly rounded quotient; \<^verbatim>\<open>x * y\<close> and \<^verbatim>\<open>x + y\<close>
  with a float operand round the exact result; \<^verbatim>\<open>round(x)\<close> is the nearest \<^verbatim>\<open>int\<close>,
  ties to even; \<^verbatim>\<open>round(x, 1)\<close> is the double nearest to the value of \<open>x\<close> rounded to
  one decimal, ties to even.
\<close>

definition truediv :: "int \<Rightarrow> int \<Rightarrow> rat" where
  "truediv a b = float_of (of_int a / of_int b)"

definition fmul :: "rat \<Rightarrow> rat \<Rightarrow> rat" where
  "fmul x y = float_of (x * y)"

definition fadd :: "rat \<Rightarrow> rat \<Rightarrow> rat" where
  "fadd x y = float_of (x + y)"

definition py_round :: "rat \<Rightarrow> int" where
  "py_round x = round_half_even x"

definition py_round1 :: "rat \<Rightarrow> rat" where
  "py_round1 x = float_of (of_int (round_half_even (x * 10)) / 10)"

text \<open>
  \<^verbatim>\<open>
  def time_function(df: DataFrame):
      data_size = df.shape[0]

      def fn(x):
          if data_size <= 50:  # use whole hour
              step = round(x.minute/60)
          elif data_size <= 100:  # use half division (every 30 mins)
              step = round(x.minute/60*2)/2
          elif data_size <= 200:  # use quatre division (every 15 mins)
              step = round(x.minute/60*4)/4
          else:  # use tenth division of hour (every 6 mins)
              step = round(x.minute/60, 1)
          return x.hour + step

      return fn
  \<close>
  \<open>time_function df\<close> is the function returned; its argument is a time stamp, read
  through \<^verbatim>\<open>x.hour\<close> and \<^verbatim>\<open>x.minute\<close>. In the first branch the step and the sum are
  \<^verbatim>\<open>int\<close>s; in the others the step is a float and so is the sum.
\<close>

definition time_function :: "frame \<Rightarrow> datetime \<Rightarrow> rat" where
  "time_function df x =
     (let data_size = nrows df in
      if data_size \<le> 50 then
        of_int (dt_hour x + py_round (truediv (dt_minute x) 60))
      else if data_size \<le> 100 then
        fadd (of_int (dt_hour x)) (truediv (py_round (fmul (truediv (dt_minute x) 60) 2)) 2)
      else if data_size \<le> 200 then
        fadd (of_int (dt_hour x)) (truediv (py_round (fmul (truediv (dt_minute x) 60) 4)) 4)
      else
        fadd (of_int (dt_hour x)) (py_round1 (truediv (dt_minute x) 60)))"

section \<open>Notions used in the statements and proofs\<close>

text \<open>
  \<open>dg U\<close> is the class \<^verbatim>\<open>\d\<close> as a predicate. \<open>re_fullmatch U r s\<close> says that the pattern
  \<open>r\<close> matches the whole of \<open>s\<close> (\<^verbatim>\<open>re.fullmatch(r, s)\<close> is not \<^verbatim>\<open>None\<close>): one of the ways
  in which \<open>r\<close> matches at the start of \<open>s\<close> leaves nothing to read. \<open>month_text U m\<close>
  describes the texts of the pattern \<^verbatim>\<open>Month\<close>: \<^verbatim>\<open>10\<close>, \<^verbatim>\<open>11\<close>, \<^verbatim>\<open>12\<close>, or \<^verbatim>\<open>0\<close> and one
  decimal digit. \<open>ext t\<close> appends \<open>t\<close> to the text that a matcher state still has to
  read, and \<open>keeps t\<close> holds of a state that has at least \<open>length t\<close> characters left.
  \<open>log_suffix\<close> is the part of the pattern of \<^verbatim>\<open>parse_log_line\<close> that follows \<^verbatim>\<open>^.+\<close>.
  \<open>arabic_indic\<close> is an excerpt of the Unicode database, used in examples: the
  Arabic-Indic digits U+0660 to U+0669 are decimal digits with the values 0 to 9 (and
  alphanumeric).
\<close>

definition dg :: "unicode \<Rightarrow> nat \<Rightarrow> bool" where
  "dg U c = in_class U Digit c"

definition re_fullmatch :: "unicode \<Rightarrow> regex \<Rightarrow> pystr \<Rightarrow> bool" where
  "re_fullmatch U r s = list_ex (\<lambda>st. fst st = []) (ms U r (s, []))"

definition month_text :: "unicode \<Rightarrow> pystr \<Rightarrow> bool" where
  "month_text U m =
     (m \<in> set (map str [''10'', ''11'', ''12'']) \<or>
      (length m = 2 \<and> m ! 0 = of_char CHR ''0'' \<and> in_class U Digit (m ! 1)))"

definition ext :: "pystr \<Rightarrow> mstate \<Rightarrow> mstate" where
  "ext t st = (fst st @ t, snd st)"

definition keeps :: "pystr \<Rightarrow> mstate \<Rightarrow> bool" where
  "keeps t st = (length t \<le> length (fst st))"

definition log_suffix :: regex where
  "log_suffix = seqs [Lit CHR '' '', Regex_Repeat, Lit CHR '' '', Regex_Kind]"

definition digit_of :: "nat \<Rightarrow> digit" where
  "digit_of n = [D0, D1, D2, D3, D4, D5, D6, D7, D8, D9] ! n"

definition arabic_indic :: unicode where
  "arabic_indic =
     \<lparr>decimal_value = (\<lambda>c. if 1632 \<le> c \<and> c \<le> 1641 then Some (digit_of (c - 1632)) else None),
      alnum = (\<lambda>c. 1632 \<le> c \<and> c \<le> 1641)\<rparr>"

section \<open>Properties of the matcher\<close>

text \<open>
  In the statements below the separators appear as code points: 32 is the space, 42
  \<^verbatim>\<open>*\<close>, 45 \<^verbatim>\<open>-\<close>, 47 \<^verbatim>\<open>/\<close>, 58 \<^verbatim>\<open>:\<close>, and 48 to 57 are the digits \<^verbatim>\<open>0\<close> to \<^verbatim>\<open>9\<close>.
\<close>

lemma many1_suffix: "r \<in> set (many1 p s) \<Longrightarrow> \<exists>w. s = w @ r \<and> w \<noteq> [] \<and> list_all p w"
proof (induction s)
  case Nil
  then show ?case by simp
next
  case (Cons c cs)
  then show ?case
  proof (cases "r = cs")
    case True
    with Cons.prems show ?thesis by (auto split: if_splits intro: exI[of _ "[c]"])
  next
    case False
    with Cons.prems have pc: "p c" and "r \<in> set (many1 p cs)" by (auto split: if_splits)
    then obtain w where "cs = w @ r" "list_all p w" using Cons.IH by blast
    with pc show ?thesis by (intro exI[of _ "c # w"]) simp
  qed
qed

lemma many1_prefix: "w \<noteq> [] \<Longrightarrow> list_all p w \<Longrightarrow> r \<in> set (many1 p (w @ r))"
proof (induction w)
  case Nil
  then show ?case by simp
next
  case (Cons c cs)
  then show ?case by (cases "cs = []") auto
qed

lemma ms_suffix: "(r, e') \<in> set (ms U re (s, e)) \<Longrightarrow> \<exists>w. s = w @ r"
proof (induction re arbitrary: s e r e')
  case (Seq a b)
  then show ?case by (fastforce)
next
  case (Plus k)
  then show ?case using many1_suffix by fastforce
qed (auto split: list.splits if_splits)

lemma ms_Group_inv:
  assumes "(r, e') \<in> set (ms U (Group n a) (s, e))"
  obtains w e'' where "s = w @ r" "(r, e'') \<in> set (ms U a (s, e))" "e' = (n, w) # e''"
proof -
  from assms obtain e'' where 1: "(r, e'') \<in> set (ms U a (s, e))"
    and 2: "e' = (n, take (length s - length r) s) # e''" by auto
  from ms_suffix[OF 1] obtain w where "s = w @ r" by blast
  with 1 2 that show thesis by simp
qed

lemma r02: "in_class U (Range CHR ''0'' CHR ''2'') c \<longleftrightarrow> c = 48 \<or> c = 49 \<or> c = 50"
  by auto

lemma r03: "in_class U (Range CHR ''0'' CHR ''3'') c \<longleftrightarrow> c = 48 \<or> c = 49 \<or> c = 50 \<or> c = 51"
  by auto

lemma r05: "in_class U (Range CHR ''0'' CHR ''5'') c \<longleftrightarrow>
    c = 48 \<or> c = 49 \<or> c = 50 \<or> c = 51 \<or> c = 52 \<or> c = 53"
  by auto

lemma o01: "in_class U (OneOf ''01'') c \<longleftrightarrow> c = 48 \<or> c = 49"
  by (auto simp: str_def)

lemma o123: "in_class U (OneOf ''123'') c \<longleftrightarrow> c = 49 \<or> c = 50 \<or> c = 51"
  by (auto simp: str_def)

lemma in_ms_Lit: "(r, e') \<in> set (ms U (Lit c) (s, e)) \<longleftrightarrow> s = of_char c # r \<and> e' = e"
  by (auto split: list.splits)

lemma in_ms_Cls: "(r, e') \<in> set (ms U (Cls k) (s, e)) \<longleftrightarrow> (\<exists>x. s = x # r \<and> in_class U k x \<and> e' = e)"
  by (auto split: list.splits)

lemma in_ms_Seq: "(r, e') \<in> set (ms U (Seq a b) (s, e)) \<longleftrightarrow>
   (\<exists>r1 e1. (r1, e1) \<in> set (ms U a (s, e)) \<and> (r, e') \<in> set (ms U b (r1, e1)))"
  by auto

lemma in_ms_Alt: "(r, e') \<in> set (ms U (Alt a b) (s, e)) \<longleftrightarrow>
   (r, e') \<in> set (ms U a (s, e)) \<or> (r, e') \<in> set (ms U b (s, e))"
  by auto

lemma in_ms_Opt: "(r, e') \<in> set (ms U (Opt a) (s, e)) \<longleftrightarrow>
   (r, e') \<in> set (ms U a (s, e)) \<or> (r = s \<and> e' = e)"
  by auto

lemma in_ms_Eps: "(r, e') \<in> set (ms U Eps (s, e)) \<longleftrightarrow> r = s \<and> e' = e"
  by auto

lemmas in_ms = in_ms_Lit in_ms_Cls in_ms_Seq in_ms_Alt in_ms_Opt in_ms_Eps

lemma in_ms_Group: "(r, e') \<in> set (ms U (Group n a) (s, e)) \<longleftrightarrow>
   (\<exists>w e''. s = w @ r \<and> (r, e'') \<in> set (ms U a (s, e)) \<and> e' = (n, w) # e'')"
proof
  assume "(r, e') \<in> set (ms U (Group n a) (s, e))"
  then show "\<exists>w e''. s = w @ r \<and> (r, e'') \<in> set (ms U a (s, e)) \<and> e' = (n, w) # e''"
    by (elim ms_Group_inv) blast
next
  assume "\<exists>w e''. s = w @ r \<and> (r, e'') \<in> set (ms U a (s, e)) \<and> e' = (n, w) # e''"
  then show "(r, e') \<in> set (ms U (Group n a) (s, e))" by force
qed

lemma dg_ascii: "c < 128 \<Longrightarrow> dg U c \<longleftrightarrow> 48 \<le> c \<and> c \<le> 57"
  unfolding dg_def by (simp add: str_def) arith

lemma rep2: "rep 2 r = Seq r (Seq r Eps)"
  by (simp add: numeral_2_eq_2)

lemma dg_chars [simp]: "\<not> dg U 45" "\<not> dg U 58" "\<not> dg U 32" "\<not> dg U 47" "\<not> dg U 42"
  "dg U 48" "dg U 49" "dg U 50" "dg U 51" "dg U 52" "dg U 53" "dg U 57"
  by (simp_all add: dg_ascii)

lemma year_inv:
  "(r, e') \<in> set (ms U Regex_Year (s, e)) \<Longrightarrow>
    (\<exists>a b. s = a # b # r \<and> dg U a \<and> dg U b \<and> e' = (''Year'', [a, b]) # e) \<or>
    (\<exists>a b c d. s = a # b # c # d # r \<and> dg U a \<and> dg U b \<and> dg U c \<and> dg U d \<and> e' = (''Year'', [a, b, c, d]) # e)"
  unfolding Regex_Year_def
  apply (simp add: in_ms in_ms_Group rep2 dg_def[symmetric] del: ms.simps in_class.simps)
  apply (auto)
  done

lemma month_inv:
  "(r, e') \<in> set (ms U Regex_Month (s, e)) \<Longrightarrow>
    (\<exists>a b. s = a # b # r \<and> dg U a \<and> dg U b \<and> e' = (''Month'', [a, b]) # e \<and> month_text U [a, b])"
  unfolding Regex_Month_def
  apply (simp add: in_ms in_ms_Group r02 dg_def[symmetric] del: ms.simps in_class.simps)
  apply (auto simp: month_text_def str_def dg_def[symmetric] simp del: in_class.simps)
  done

lemma day_inv:
  "(r, e') \<in> set (ms U Regex_Day (s, e)) \<Longrightarrow>
    (\<exists>a b. s = a # b # r \<and> dg U a \<and> dg U b \<and> e' = (''Day'', [a, b]) # e)"
  unfolding Regex_Day_def
  apply (simp add: in_ms in_ms_Group o123 dg_def[symmetric] del: ms.simps in_class.simps)
  apply (auto)
  done

lemma hour_inv:
  "(r, e') \<in> set (ms U Regex_Hour (s, e)) \<Longrightarrow>
    (\<exists>a. s = a # r \<and> dg U a \<and> e' = (''Hour'', [a]) # e) \<or>
    (\<exists>a b. s = a # b # r \<and> dg U a \<and> dg U b \<and> e' = (''Hour'', [a, b]) # e)"
  unfolding Regex_Hour_def
  apply (simp add: in_ms in_ms_Group r03 o01 dg_def[symmetric] del: ms.simps in_class.simps)
  apply (auto)
  done

lemma minute_inv:
  "(r, e') \<in> set (ms U Regex_Minute (s, e)) \<Longrightarrow>
    (\<exists>a b. s = a # b # r \<and> dg U a \<and> dg U b \<and> e' = (''Minute'', [a, b]) # e)"
  unfolding Regex_Minute_def
  apply (simp add: in_ms in_ms_Group r05 dg_def[symmetric] del: ms.simps in_class.simps)
  apply (auto)
  done

lemma second_inv:
  "(r, e') \<in> set (ms U Regex_Second (s, e)) \<Longrightarrow>
    (\<exists>a b. s = a # b # r \<and> dg U a \<and> dg U b \<and> e' = (''Second'', [a, b]) # e)"
  unfolding Regex_Second_def
  apply (simp add: in_ms in_ms_Group r05 dg_def[symmetric] del: ms.simps in_class.simps)
  apply (auto)
  done

lemma ms_env: "ms U re (s, e) = map (\<lambda>st. (fst st, snd st @ e)) (ms U re (s, []))"
proof (induction re arbitrary: s e)
  case (Seq a b)
  have b: "ms U b (r, e1 @ e) = map (\<lambda>st. (fst st, snd st @ e)) (ms U b (r, e1))" for r e1
    by (subst Seq.IH(2)[of r "e1 @ e"], subst Seq.IH(2)[of r e1]) (simp add: comp_def)
  have "ms U (Seq a b) (s, e) = concat (map (ms U b) (map (\<lambda>st. (fst st, snd st @ e)) (ms U a (s, []))))"
    by (simp only: ms.simps Seq.IH(1)[of s e])
  also have "\<dots> = concat (map (\<lambda>st. map (\<lambda>st. (fst st, snd st @ e)) (ms U b st)) (ms U a (s, [])))"
    by (simp add: comp_def b)
  also have "\<dots> = map (\<lambda>st. (fst st, snd st @ e)) (ms U (Seq a b) (s, []))"
    by (simp add: map_concat comp_def)
  finally show ?case .
next
  case (Alt a b)
  show ?case by (simp add: Alt.IH(1)[of s e] Alt.IH(2)[of s e])
next
  case (Opt a)
  show ?case by (simp add: Opt.IH[of s e])
next
  case (Group n a)
  show ?case by (simp add: Group.IH[of s e] comp_def case_prod_beta)
qed (auto split: list.splits)

lemma ms_nonempty_env: "(r, e') \<in> set (ms U re (s, e)) \<Longrightarrow> ms U re (s, []) \<noteq> []"
  by (subst (asm) ms_env) auto

lemma time_inv:
  assumes "(r, e') \<in> set (ms U Regex_Time (s, e))"
  shows "\<exists>h a b tl. s = h @ 58 # a # b # tl \<and> (\<exists>x. h = [x] \<and> dg U x \<or> (\<exists>y. h = [x, y] \<and> dg U x \<and> dg U y)) \<and> dg U a \<and> dg U b \<and>
     (tl = r \<and> e' = (''Minute'', [a, b]) # (''Hour'', h) # e \<or>
      (\<exists>c d. tl = 58 # c # d # r \<and> dg U c \<and> dg U d \<and>
          ms U (Seq (Lit CHR '':'') Regex_Second) (tl, []) \<noteq> [] \<and>
          e' = (''Second'', [c, d]) # (''Minute'', [a, b]) # (''Hour'', h) # e))"
proof -
  from assms obtain r1 e1 r2 e2 where
    h: "(58 # r1, e1) \<in> set (ms U Regex_Hour (s, e))" and
    m: "(r2, e2) \<in> set (ms U Regex_Minute (r1, e1))" and
    o: "(r, e') \<in> set (ms U (Seq (Lit CHR '':'') Regex_Second) (r2, e2)) \<or> r = r2 \<and> e' = e2"
    unfolding Regex_Time_def by (auto simp add: in_ms simp del: ms.simps in_class.simps)
  from hour_inv[OF h] obtain hh where h': "s = hh @ 58 # r1" "e1 = (''Hour'', hh) # e"
    "\<exists>x. hh = [x] \<and> dg U x \<or> (\<exists>y. hh = [x, y] \<and> dg U x \<and> dg U y)"
    by auto
  from minute_inv[OF m] obtain a b where m': "r1 = a # b # r2" "dg U a" "dg U b"
    "e2 = (''Minute'', [a, b]) # e1" by blast
  from o show ?thesis
  proof
    assume sec: "(r, e') \<in> set (ms U (Seq (Lit CHR '':'') Regex_Second) (r2, e2))"
    then obtain r3 where "r2 = 58 # r3" "(r, e') \<in> set (ms U Regex_Second (r3, e2))"
      by (auto simp add: in_ms simp del: ms.simps in_class.simps)
    with second_inv[of r e' U r3 e2] obtain c d where
      s': "r2 = 58 # c # d # r" "dg U c" "dg U d" "e' = (''Second'', [c, d]) # e2" by auto
    from ms_nonempty_env[OF sec] h' m' s' show ?thesis
      by (intro exI[of _ hh] exI[of _ a] exI[of _ b] exI[of _ r2]) simp
  next
    assume "r = r2 \<and> e' = e2"
    with h' m' show ?thesis
      by (intro exI[of _ hh] exI[of _ a] exI[of _ b] exI[of _ r2]) simp
  qed
qed

lemma dash_inv:
  assumes "(r, e') \<in> set (ms U regex_dash (s, e))"
  shows "\<exists>y m1 m2 d1 d2 tl.
     (\<exists>a b. (y = [a, b] \<and> dg U a \<and> dg U b) \<or> (\<exists>c d. y = [a, b, c, d] \<and> dg U a \<and> dg U b \<and> dg U c \<and> dg U d)) \<and>
     s = y @ 45 # m1 # m2 # 45 # d1 # d2 # 42 # tl \<and>
     month_text U [m1, m2] \<and> dg U m1 \<and> dg U m2 \<and> dg U d1 \<and> dg U d2 \<and>
     (r, e') \<in> set (ms U Regex_Time (tl, (''Day'', [d1, d2]) # (''Month'', [m1, m2]) # (''Year'', y) # e))"
proof -
  from assms obtain r1 e1 r2 e2 r3 e3 where
    y: "(45 # r1, e1) \<in> set (ms U Regex_Year (s, e))" and
    m: "(45 # r2, e2) \<in> set (ms U Regex_Month (r1, e1))" and
    d: "(42 # r3, e3) \<in> set (ms U Regex_Day (r2, e2))" and
    t: "(r, e') \<in> set (ms U Regex_Time (r3, e3))"
    unfolding regex_dash_def by (auto simp add: in_ms simp del: ms.simps in_class.simps)
  from month_inv[OF m] obtain m1 m2 where m': "r1 = m1 # m2 # 45 # r2" "dg U m1" "dg U m2"
    "e2 = (''Month'', [m1, m2]) # e1" "month_text U [m1, m2]" by blast
  from day_inv[OF d] obtain d1 d2 where d': "r2 = d1 # d2 # 42 # r3" "dg U d1" "dg U d2"
    "e3 = (''Day'', [d1, d2]) # e2" by blast
  from year_inv[OF y] obtain yy where y': "s = yy @ 45 # r1" "e1 = (''Year'', yy) # e"
    "\<exists>a b. (yy = [a, b] \<and> dg U a \<and> dg U b) \<or> (\<exists>c d. yy = [a, b, c, d] \<and> dg U a \<and> dg U b \<and> dg U c \<and> dg U d)"
    by auto
  from y' m' d' t show ?thesis by (intro exI[of _ yy] exI[of _ m1] exI[of _ m2] exI[of _ d1] exI[of _ d2] exI[of _ r3]) simp
qed

lemma slash_inv:
  assumes "(r, e') \<in> set (ms U regex_slash (s, e))"
  shows "\<exists>y m1 m2 d1 d2 tl.
     (\<exists>a b. (y = [a, b] \<and> dg U a \<and> dg U b) \<or> (\<exists>c d. y = [a, b, c, d] \<and> dg U a \<and> dg U b \<and> dg U c \<and> dg U d)) \<and>
     s = d1 # d2 # 47 # m1 # m2 # 47 # y @ 32 # tl \<and>
     month_text U [m1, m2] \<and> dg U m1 \<and> dg U m2 \<and> dg U d1 \<and> dg U d2 \<and>
     (r, e') \<in> set (ms U Regex_Time (tl, (''Year'', y) # (''Month'', [m1, m2]) # (''Day'', [d1, d2]) # e))"
proof -
  from assms obtain r1 e1 r2 e2 r3 e3 where
    d: "(47 # r1, e1) \<in> set (ms U Regex_Day (s, e))" and
    m: "(47 # r2, e2) \<in> set (ms U Regex_Month (r1, e1))" and
    y: "(32 # r3, e3) \<in> set (ms U Regex_Year (r2, e2))" and
    t: "(r, e') \<in> set (ms U Regex_Time (r3, e3))"
    unfolding regex_slash_def by (auto simp add: in_ms simp del: ms.simps in_class.simps)
  from day_inv[OF d] obtain d1 d2 where d': "s = d1 # d2 # 47 # r1" "dg U d1" "dg U d2"
    "e1 = (''Day'', [d1, d2]) # e" by blast
  from month_inv[OF m] obtain m1 m2 where m': "r1 = m1 # m2 # 47 # r2" "dg U m1" "dg U m2"
    "e2 = (''Month'', [m1, m2]) # e1" "month_text U [m1, m2]" by blast
  from year_inv[OF y] obtain yy where y': "r2 = yy @ 32 # r3" "e3 = (''Year'', yy) # e2"
    "\<exists>a b. (yy = [a, b] \<and> dg U a \<and> dg U b) \<or> (\<exists>c d. yy = [a, b, c, d] \<and> dg U a \<and> dg U b \<and> dg U c \<and> dg U d)"
    by auto
  from y' m' d' t show ?thesis by (intro exI[of _ yy] exI[of _ m1] exI[of _ m2] exI[of _ d1] exI[of _ d2] exI[of _ r3]) simp
qed

lemma time_agree:
  assumes "(r1, e1) \<in> set (ms U Regex_Time (u, ea))" "(r2, e2) \<in> set (ms U Regex_Time (u, eb))"
    "map_of e1 ''Second'' \<noteq> None" "map_of ea ''Second'' = None"
  shows "length r1 \<le> length r2"
  using time_inv[OF assms(1)] time_inv[OF assms(2)] assms(3,4)
  by (elim exE conjE disjE) auto

lemma dash_agree:
  assumes "(r1, e1) \<in> set (ms U regex_dash (u, []))" "(r2, e2) \<in> set (ms U regex_dash (u, []))"
    "map_of e1 ''Second'' \<noteq> None"
  shows "length r1 \<le> length r2"
proof -
  from dash_inv[OF assms(1)] obtain y m1 m2 d1 d2 tl where
    1: "\<exists>a b. (y = [a, b] \<and> dg U a \<and> dg U b) \<or> (\<exists>c d. y = [a, b, c, d] \<and> dg U a \<and> dg U b \<and> dg U c \<and> dg U d)"
       "u = y @ 45 # m1 # m2 # 45 # d1 # d2 # 42 # tl"
       "(r1, e1) \<in> set (ms U Regex_Time (tl, (''Day'', [d1, d2]) # (''Month'', [m1, m2]) # (''Year'', y) # []))"
    by blast
  from dash_inv[OF assms(2)] obtain y' m1' m2' d1' d2' tl' where
    2: "\<exists>a b. (y' = [a, b] \<and> dg U a \<and> dg U b) \<or> (\<exists>c d. y' = [a, b, c, d] \<and> dg U a \<and> dg U b \<and> dg U c \<and> dg U d)"
       "u = y' @ 45 # m1' # m2' # 45 # d1' # d2' # 42 # tl'"
       "(r2, e2) \<in> set (ms U Regex_Time (tl', (''Day'', [d1', d2']) # (''Month'', [m1', m2']) # (''Year'', y') # []))"
    by blast
  from 1(1,2) 2(1,2) have "tl' = tl" by auto
  with 1(3) 2(3) assms(3) show ?thesis by (intro time_agree) auto
qed

lemma slash_agree:
  assumes "(r1, e1) \<in> set (ms U regex_slash (u, []))" "(r2, e2) \<in> set (ms U regex_slash (u, []))"
    "map_of e1 ''Second'' \<noteq> None"
  shows "length r1 \<le> length r2"
proof -
  from slash_inv[OF assms(1)] obtain y m1 m2 d1 d2 tl where
    1: "\<exists>a b. (y = [a, b] \<and> dg U a \<and> dg U b) \<or> (\<exists>c d. y = [a, b, c, d] \<and> dg U a \<and> dg U b \<and> dg U c \<and> dg U d)"
       "u = d1 # d2 # 47 # m1 # m2 # 47 # y @ 32 # tl"
       "(r1, e1) \<in> set (ms U Regex_Time (tl, (''Year'', y) # (''Month'', [m1, m2]) # (''Day'', [d1, d2]) # []))"
    by blast
  from slash_inv[OF assms(2)] obtain y' m1' m2' d1' d2' tl' where
    2: "\<exists>a b. (y' = [a, b] \<and> dg U a \<and> dg U b) \<or> (\<exists>c d. y' = [a, b, c, d] \<and> dg U a \<and> dg U b \<and> dg U c \<and> dg U d)"
       "u = d1' # d2' # 47 # m1' # m2' # 47 # y' @ 32 # tl'"
       "(r2, e2) \<in> set (ms U Regex_Time (tl', (''Year'', y') # (''Month'', [m1', m2']) # (''Day'', [d1', d2']) # []))"
    by blast
  from 1(1,2) 2(1,2) have "tl' = tl" by auto
  with 1(3) 2(3) assms(3) show ?thesis by (intro time_agree) auto
qed

lemma dash_slash_disjoint:
  assumes "(r1, e1) \<in> set (ms U regex_dash (u, ea))" "(r2, e2) \<in> set (ms U regex_slash (take n u, eb))"
  shows False
proof -
  from dash_inv[OF assms(1)] have "\<exists>a b c tl. u = a # b # c # tl \<and> (dg U c \<or> c = 45)" by auto
  moreover from slash_inv[OF assms(2)] have "\<exists>a b tl. take n u = a # b # 47 # tl" by auto
  ultimately show False by (auto simp: take_Cons' split: if_splits)
qed

lemma many1_shorter: "r \<in> set (many1 p s) \<Longrightarrow> length r < length s"
  using many1_suffix[of r p s] by auto

lemma many1_ext:
  "filter (\<lambda>r. length t \<le> length r) (many1 p (s @ t)) = map (\<lambda>r. r @ t) (many1 p s)"
proof (induction s)
  case Nil
  have "\<forall>r \<in> set (many1 p t). \<not> length t \<le> length r" using many1_shorter[of _ p t] by fastforce
  then show ?case by (simp add: filter_empty_conv)
next
  case (Cons c cs)
  then show ?case by simp
qed

lemma ms_shorter: "(r, e') \<in> set (ms U re (s, e)) \<Longrightarrow> length r \<le> length s"
  using ms_suffix[of r e' U re s e] by auto

lemma concat_map_filter_irrelevant:
  "(\<And>y. y \<in> set L \<Longrightarrow> \<not> P y \<Longrightarrow> f y = []) \<Longrightarrow> concat (map f L) = concat (map f (filter P L))"
  by (induction L) auto

lemma ms_ext: "filter (keeps t) (ms U re (s @ t, e)) = map (ext t) (ms U re (s, e))"
proof (induction re arbitrary: s e)
  case (Lit c)
  then show ?case by (cases s) (auto simp: keeps_def ext_def split: list.splits)
next
  case (Cls k)
  then show ?case by (cases s) (auto simp: keeps_def ext_def split: list.splits)
next
  case (Seq a b)
  let ?f = "\<lambda>y. filter (keeps t) (ms U b y)"
  have irr: "?f y = []" if "\<not> keeps t y" for y
  proof -
    have "\<not> keeps t x" if "x \<in> set (ms U b y)" for x
      using that \<open>\<not> keeps t y\<close> ms_shorter[of "fst x" "snd x" U b "fst y" "snd y"]
      by (simp add: keeps_def)
    then show ?thesis by (simp add: filter_empty_conv)
  qed
  have step: "?f (ext t y0) = map (ext t) (ms U b y0)" for y0
    using Seq.IH(2)[of "fst y0" "snd y0"] by (simp add: ext_def)
  have "filter (keeps t) (ms U (Seq a b) (s @ t, e)) = concat (map ?f (ms U a (s @ t, e)))"
    by (simp add: filter_concat comp_def)
  also have "\<dots> = concat (map ?f (filter (keeps t) (ms U a (s @ t, e))))"
    by (rule concat_map_filter_irrelevant) (rule irr)
  also have "\<dots> = concat (map ?f (map (ext t) (ms U a (s, e))))"
    by (simp only: Seq.IH(1))
  also have "\<dots> = concat (map (\<lambda>y0. map (ext t) (ms U b y0)) (ms U a (s, e)))"
    by (simp add: comp_def step)
  also have "\<dots> = map (ext t) (ms U (Seq a b) (s, e))"
    by (simp add: map_concat comp_def)
  finally show ?case .
next
  case (Alt a b)
  then show ?case by simp
next
  case (Opt a)
  then show ?case by (simp add: keeps_def ext_def)
next
  case (Plus k)
  have "filter (keeps t) (ms U (Plus k) (s @ t, e)) =
        map (\<lambda>r. (r, e)) (filter (\<lambda>r. length t \<le> length r) (many1 (in_class U k) (s @ t)))"
    by (simp add: filter_map comp_def keeps_def)
  then show ?case by (simp add: many1_ext comp_def ext_def)
next
  case Eps
  then show ?case by (simp add: keeps_def ext_def)
next
  case (Group n a)
  let ?g = "\<lambda>u (r, e'). (r, (n, take (length u - length r) u) # e')"
  have "filter (keeps t) (ms U (Group n a) (s @ t, e)) = map (?g (s @ t)) (filter (keeps t) (ms U a (s @ t, e)))"
    by (simp add: filter_map comp_def keeps_def[abs_def] case_prod_beta del: take_append)
  also have "\<dots> = map (?g (s @ t)) (map (ext t) (ms U a (s, e)))"
    by (simp only: Group.IH)
  also have "\<dots> = map (ext t) (map (?g s) (ms U a (s, e)))"
  proof -
    have "?g (s @ t) (ext t y) = ext t (?g s y)" if "y \<in> set (ms U a (s, e))" for y
      using ms_shorter[of "fst y" "snd y" U a s e] that
      by (simp add: ext_def case_prod_beta)
    then show ?thesis by simp
  qed
  finally show ?case by (simp add: case_prod_beta)
qed

lemma ms_extend:
  assumes "(r, e') \<in> set (ms U re (s, []))"
  shows "(r @ t, e' @ e) \<in> set (ms U re (s @ t, e))"
proof -
  from assms have "ext t (r, e') \<in> set (filter (keeps t) (ms U re (s @ t, [])))"
    unfolding ms_ext by simp
  then have "(r @ t, e') \<in> set (ms U re (s @ t, []))" by (simp add: ext_def)
  then show ?thesis by (subst ms_env) force
qed

lemma re_match_Some: "re_match U R s = Some e0 \<longleftrightarrow> (\<exists>r0 rest. ms U R (s, []) = (r0, e0) # rest)"
  by (auto simp: re_match_def split: list.splits)

lemma re_match_SomeD: "re_match U R s = Some e0 \<Longrightarrow> \<exists>r0. (r0, e0) \<in> set (ms U R (s, []))"
  by (auto simp: re_match_def split: list.splits)

lemma re_match_None: "re_match U R s = None \<longleftrightarrow> ms U R (s, []) = []"
  by (auto simp: re_match_def split: list.splits)

lemma re_match_ext:
  assumes m: "re_match U R s = Some e0" and sec: "map_of e0 ''Second'' \<noteq> None"
    and agree: "\<And>u r1 e1 r2 e2. (r1, e1) \<in> set (ms U R (u, [])) \<Longrightarrow> (r2, e2) \<in> set (ms U R (u, []))
        \<Longrightarrow> map_of e1 ''Second'' \<noteq> None \<Longrightarrow> length r1 \<le> length r2"
  shows "re_match U R (s @ t) = Some e0"
proof -
  from m obtain r0 rest where L0: "ms U R (s, []) = (r0, e0) # rest"
    by (auto simp: re_match_Some)
  have E: "filter (keeps t) (ms U R (s @ t, [])) = map (ext t) (ms U R (s, []))" by (rule ms_ext)
  have "ext t (r0, e0) \<in> set (filter (keeps t) (ms U R (s @ t, [])))"
    unfolding E L0 by simp
  then have in1: "(r0 @ t, e0) \<in> set (ms U R (s @ t, []))" by (simp add: ext_def)
  have "keeps t x" if "x \<in> set (ms U R (s @ t, []))" for x
  proof -
    from that have "(fst x, snd x) \<in> set (ms U R (s @ t, []))" by simp
    from agree[OF in1 this sec] show ?thesis by (simp add: keeps_def)
  qed
  then have "filter (keeps t) (ms U R (s @ t, [])) = ms U R (s @ t, [])" by (simp add: filter_id_conv)
  with E L0 have "ms U R (s @ t, []) = (r0 @ t, e0) # map (ext t) rest" by (simp add: ext_def)
  then show ?thesis by (simp add: re_match_def)
qed

lemma dash_not_slash: "re_match U regex_slash s = Some e \<Longrightarrow> re_match U regex_dash (s @ t) = None"
proof (rule ccontr)
  assume s: "re_match U regex_slash s = Some e" and "re_match U regex_dash (s @ t) \<noteq> None"
  then obtain e' where "re_match U regex_dash (s @ t) = Some e'" by auto
  then obtain r1 where 1: "(r1, e') \<in> set (ms U regex_dash (s @ t, []))" by (blast dest: re_match_SomeD)
  from s obtain r2 where "(r2, e) \<in> set (ms U regex_slash (s, []))" by (blast dest: re_match_SomeD)
  then have "(r2, e) \<in> set (ms U regex_slash (take (length s) (s @ t), []))" by simp
  with 1 show False by (rule dash_slash_disjoint)
qed

lemma parse_time_str_order:
  "parse_time_str_in U [regex_slash, regex_dash] s = parse_time_str U s"
  using dash_not_slash[of U s _ "[]"]
  by (auto simp: parse_time_str_def split: option.splits)

lemma parsed_cases:
  assumes "parse_time_str U s = Some ts"
  shows "(\<exists>r e. (r, e) \<in> set (ms U regex_dash (s, [])) \<and> ts = groupdict e) \<or>
         (\<exists>r e. (r, e) \<in> set (ms U regex_slash (s, [])) \<and> ts = groupdict e)"
  using assms
  by (auto simp: parse_time_str_def split: option.splits dest!: re_match_SomeD)

lemma time_fields:
  assumes "(r, e') \<in> set (ms U Regex_Time (s, e))"
  shows "\<exists>h mi. map_of e' ''Hour'' = Some h \<and> map_of e' ''Minute'' = Some mi \<and>
         h \<noteq> [] \<and> list_all (dg U) h \<and> length h \<le> 2 \<and> length mi = 2 \<and> list_all (dg U) mi \<and>
         (\<forall>n. n \<notin> {''Hour'', ''Minute'', ''Second''} \<longrightarrow> map_of e' n = map_of e n) \<and>
         (map_of e' ''Second'' = None \<longrightarrow> map_of e ''Second'' = None) \<and>
         (\<forall>x. map_of e ''Second'' = None \<longrightarrow> map_of e' ''Second'' = Some x \<longrightarrow> length x = 2 \<and> list_all (dg U) x) \<and>
         (\<exists>tl. s = h @ 58 # mi @ tl \<and>
            (map_of e ''Second'' = None \<longrightarrow> map_of e' ''Second'' \<noteq> None \<longrightarrow>
               ms U (Seq (Lit CHR '':'') Regex_Second) (tl, []) \<noteq> []))"
  using time_inv[OF assms] by (elim exE conjE disjE) auto

lemma dash_fields:
  assumes "(r, e') \<in> set (ms U regex_dash (s, []))"
  shows "\<exists>y m d h mi. groupdict e' =
           \<lparr>Year = Some y, Month = Some m, Day = Some d, Hour = Some h, Minute = Some mi,
            Second = map_of e' ''Second''\<rparr> \<and>
         list_all (dg U) y \<and> (length y = 2 \<or> length y = 4) \<and> month_text U m \<and> list_all (dg U) m \<and>
         length m = 2 \<and> list_all (dg U) d \<and> length d = 2 \<and>
         h \<noteq> [] \<and> list_all (dg U) h \<and> length h \<le> 2 \<and> length mi = 2 \<and> list_all (dg U) mi \<and>
         (\<forall>x. map_of e' ''Second'' = Some x \<longrightarrow> length x = 2 \<and> list_all (dg U) x) \<and>
         (\<exists>tl. s = y @ 45 # m @ 45 # d @ 42 # h @ 58 # mi @ tl \<and>
            (map_of e' ''Second'' \<noteq> None \<longrightarrow> ms U (Seq (Lit CHR '':'') Regex_Second) (tl, []) \<noteq> []))"
proof -
  from dash_inv[OF assms] obtain y m1 m2 d1 d2 tl where
    1: "\<exists>a b. (y = [a, b] \<and> dg U a \<and> dg U b) \<or> (\<exists>c d. y = [a, b, c, d] \<and> dg U a \<and> dg U b \<and> dg U c \<and> dg U d)"
       "s = y @ 45 # m1 # m2 # 45 # d1 # d2 # 42 # tl"
       "month_text U [m1, m2]" "dg U d1" "dg U d2" "dg U m1" "dg U m2"
       "(r, e') \<in> set (ms U Regex_Time (tl, (''Day'', [d1, d2]) # (''Month'', [m1, m2]) # (''Year'', y) # []))"
    by blast
  from time_fields[OF 1(8)] obtain h mi tl' where
    2: "map_of e' ''Hour'' = Some h" "map_of e' ''Minute'' = Some mi"
       "h \<noteq> []" "list_all (dg U) h" "length h \<le> 2" "length mi = 2" "list_all (dg U) mi"
       "map_of e' ''Year'' = Some y" "map_of e' ''Month'' = Some [m1, m2]"
       "map_of e' ''Day'' = Some [d1, d2]"
       "\<forall>x. map_of e' ''Second'' = Some x \<longrightarrow> length x = 2 \<and> list_all (dg U) x"
       "tl = h @ 58 # mi @ tl'"
       "map_of e' ''Second'' \<noteq> None \<longrightarrow> ms U (Seq (Lit CHR '':'') Regex_Second) (tl', []) \<noteq> []"
    by (elim exE conjE) simp
  from 1(1) have 3: "list_all (dg U) y" "length y = 2 \<or> length y = 4" by auto
  have 4: "groupdict e' = \<lparr>Year = Some y, Month = Some [m1, m2], Day = Some [d1, d2], Hour = Some h,
       Minute = Some mi, Second = map_of e' ''Second''\<rparr>"
    using 2 by (simp add: groupdict_def)
  have 5: "\<exists>tl. s = y @ 45 # [m1, m2] @ 45 # [d1, d2] @ 42 # h @ 58 # mi @ tl \<and>
            (map_of e' ''Second'' \<noteq> None \<longrightarrow> ms U (Seq (Lit CHR '':'') Regex_Second) (tl, []) \<noteq> [])"
    using 1(2) 2(12,13) by (intro exI[of _ tl']) simp
  show ?thesis
    apply (rule exI[of _ y], rule exI[of _ "[m1, m2]"], rule exI[of _ "[d1, d2]"],
        rule exI[of _ h], rule exI[of _ mi])
    using 1(3-7) 2(3-7,11) 3 4 5 by simp
qed

lemma slash_fields:
  assumes "(r, e') \<in> set (ms U regex_slash (s, []))"
  shows "\<exists>y m d h mi. groupdict e' =
           \<lparr>Year = Some y, Month = Some m, Day = Some d, Hour = Some h, Minute = Some mi,
            Second = map_of e' ''Second''\<rparr> \<and>
         list_all (dg U) y \<and> (length y = 2 \<or> length y = 4) \<and> month_text U m \<and> list_all (dg U) m \<and>
         length m = 2 \<and> list_all (dg U) d \<and> length d = 2 \<and>
         h \<noteq> [] \<and> list_all (dg U) h \<and> length h \<le> 2 \<and> length mi = 2 \<and> list_all (dg U) mi \<and>
         (\<forall>x. map_of e' ''Second'' = Some x \<longrightarrow> length x = 2 \<and> list_all (dg U) x) \<and>
         (\<exists>tl. s = d @ 47 # m @ 47 # y @ 32 # h @ 58 # mi @ tl \<and>
            (map_of e' ''Second'' \<noteq> None \<longrightarrow> ms U (Seq (Lit CHR '':'') Regex_Second) (tl, []) \<noteq> []))"
proof -
  from slash_inv[OF assms] obtain y m1 m2 d1 d2 tl where
    1: "\<exists>a b. (y = [a, b] \<and> dg U a \<and> dg U b) \<or> (\<exists>c d. y = [a, b, c, d] \<and> dg U a \<and> dg U b \<and> dg U c \<and> dg U d)"
       "s = d1 # d2 # 47 # m1 # m2 # 47 # y @ 32 # tl"
       "month_text U [m1, m2]" "dg U d1" "dg U d2" "dg U m1" "dg U m2"
       "(r, e') \<in> set (ms U Regex_Time (tl, (''Year'', y) # (''Month'', [m1, m2]) # (''Day'', [d1, d2]) # []))"
    by blast
  from time_fields[OF 1(8)] obtain h mi tl' where
    2: "map_of e' ''Hour'' = Some h" "map_of e' ''Minute'' = Some mi"
       "h \<noteq> []" "list_all (dg U) h" "length h \<le> 2" "length mi = 2" "list_all (dg U) mi"
       "map_of e' ''Year'' = Some y" "map_of e' ''Month'' = Some [m1, m2]"
       "map_of e' ''Day'' = Some [d1, d2]"
       "\<forall>x. map_of e' ''Second'' = Some x \<longrightarrow> length x = 2 \<and> list_all (dg U) x"
       "tl = h @ 58 # mi @ tl'"
       "map_of e' ''Second'' \<noteq> None \<longrightarrow> ms U (Seq (Lit CHR '':'') Regex_Second) (tl', []) \<noteq> []"
    by (elim exE conjE) simp
  from 1(1) have 3: "list_all (dg U) y" "length y = 2 \<or> length y = 4" by auto
  have 4: "groupdict e' = \<lparr>Year = Some y, Month = Some [m1, m2], Day = Some [d1, d2], Hour = Some h,
       Minute = Some mi, Second = map_of e' ''Second''\<rparr>"
    using 2 by (simp add: groupdict_def)
  have 5: "\<exists>tl. s = [d1, d2] @ 47 # [m1, m2] @ 47 # y @ 32 # h @ 58 # mi @ tl \<and>
            (map_of e' ''Second'' \<noteq> None \<longrightarrow> ms U (Seq (Lit CHR '':'') Regex_Second) (tl, []) \<noteq> [])"
    using 1(2) 2(12,13) by (intro exI[of _ tl']) simp
  show ?thesis
    apply (rule exI[of _ y], rule exI[of _ "[m1, m2]"], rule exI[of _ "[d1, d2]"],
        rule exI[of _ h], rule exI[of _ mi])
    using 1(3-7) 2(3-7,11) 3 4 5 by simp
qed

lemma parsed_fields:
  assumes "parse_time_str U s = Some ts"
  shows "\<exists>y m d h mi. ts = \<lparr>Year = Some y, Month = Some m, Day = Some d, Hour = Some h,
            Minute = Some mi, Second = Second ts\<rparr> \<and>
         list_all (dg U) y \<and> (length y = 2 \<or> length y = 4) \<and> month_text U m \<and> list_all (dg U) m \<and>
         length m = 2 \<and> list_all (dg U) d \<and> length d = 2 \<and>
         h \<noteq> [] \<and> list_all (dg U) h \<and> length h \<le> 2 \<and> length mi = 2 \<and> list_all (dg U) mi \<and>
         (\<forall>x. Second ts = Some x \<longrightarrow> length x = 2 \<and> list_all (dg U) x) \<and>
         ((\<exists>tl. s = y @ 45 # m @ 45 # d @ 42 # h @ 58 # mi @ tl) \<or>
          (\<exists>tl. s = d @ 47 # m @ 47 # y @ 32 # h @ 58 # mi @ tl))"
proof -
  from parsed_cases[OF assms] show ?thesis
  proof (elim disjE exE conjE)
    fix r e assume m: "(r, e) \<in> set (ms U regex_dash (s, []))" and ts: "ts = groupdict e"
    have sec: "Second (groupdict e) = map_of e ''Second''" by (simp add: groupdict_def)
    from dash_fields[OF m] show ?thesis unfolding ts sec by blast
  next
    fix r e assume m: "(r, e) \<in> set (ms U regex_slash (s, []))" and ts: "ts = groupdict e"
    have sec: "Second (groupdict e) = map_of e ''Second''" by (simp add: groupdict_def)
    from slash_fields[OF m] show ?thesis unfolding ts sec by blast
  qed
qed

lemma digit_int_range: "0 \<le> digit_int d \<and> digit_int d \<le> 9"
  by (cases d) simp_all

lemma dg_digit_val: "dg U c \<Longrightarrow> 0 \<le> digit_val U c \<and> digit_val U c \<le> 9"
proof (cases "c < 128")
  case True
  assume "dg U c"
  with True have "48 \<le> c \<and> c \<le> 57" by (simp add: dg_ascii)
  with True show ?thesis by (simp add: digit_val_def)
next
  case False
  assume "dg U c"
  with False obtain d where "decimal_value U c = Some d" by (auto simp: dg_def)
  with False digit_int_range[of d] show ?thesis by (simp add: digit_val_def)
qed

lemma int_of_str_digits:
  "list_all (dg U) s \<Longrightarrow> s \<noteq> [] \<Longrightarrow>
     int_of_str U s = Inr (foldl (\<lambda>acc c. 10 * acc + digit_val U c) 0 s)"
  by (simp add: int_of_str_def dg_def[abs_def] del: in_class.simps)

lemma int_or_0_digits:
  "list_all (dg U) s \<Longrightarrow> s \<noteq> [] \<Longrightarrow>
     int_or_0 U (Some s) = Inr (foldl (\<lambda>acc c. 10 * acc + digit_val U c) 0 s)"
  by (simp add: int_or_0_def int_of_str_digits)

lemma datetime_second_default:
  assumes "TimeStamp_datetime U ts = Inr dt" "Second ts = None"
  shows "dt_second dt = 0"
  using assms
  by (auto simp: TimeStamp_datetime_def datetime_new_def int_or_0_def[of U None] split: sum.splits if_splits)

lemma datetime_year_value:
  assumes "TimeStamp_datetime U ts = Inr dt" "Year ts = Some y" "list_all (dg U) y" "y \<noteq> []"
  shows "dt_year dt = foldl (\<lambda>acc c. 10 * acc + digit_val U c) 0 y"
  using assms
  by (auto simp: TimeStamp_datetime_def datetime_new_def int_or_0_digits split: sum.splits if_splits)

lemma two_digits_value:
  assumes "list_all (dg U) y" "length y = 2"
  shows "0 \<le> foldl (\<lambda>acc c. 10 * acc + digit_val U c) 0 y \<and>
         foldl (\<lambda>acc c. 10 * acc + digit_val U c) 0 y \<le> 99 \<and>
         foldl (\<lambda>acc c. 10 * acc + digit_val U c) 0 y = 10 * digit_val U (y ! 0) + digit_val U (y ! 1)"
proof -
  from assms(2) obtain a b where y: "y = [a, b]"
    by (auto simp: length_Suc_conv numeral_2_eq_2)
  with assms(1) dg_digit_val[of U a] dg_digit_val[of U b] show ?thesis by simp
qed

lemma in_ms_Plus: "(r, e') \<in> set (ms U (Plus k) (s, e)) \<Longrightarrow> e' = e"
  by auto

lemma kind_inv:
  "(r, e') \<in> set (ms U Regex_Kind (s, e)) \<Longrightarrow> \<exists>w. e' = (''Kind'', w) # e"
  unfolding Regex_Kind_def
  by (auto simp add: in_ms in_ms_Group simp del: ms.simps in_class.simps dest!: in_ms_Plus)

lemma repeat_inv:
  "(r, e') \<in> set (ms U Regex_Repeat (s, e)) \<Longrightarrow>
     \<exists>c tl. s = c # 32 # 116 # 105 # 109 # 101 # tl \<and> dg U c \<and> e' = (''Repeat'', [c]) # e"
  unfolding Regex_Repeat_def
  by (auto simp add: in_ms in_ms_Group dg_def simp del: ms.simps in_class.simps)

lemma log_suffix_inv:
  assumes "(r, e') \<in> set (ms U log_suffix (s, []))"
  shows "\<exists>c w tl. s = 32 # c # 32 # 116 # 105 # 109 # 101 # tl \<and> dg U c \<and>
           e' = [(''Kind'', w), (''Repeat'', [c])]"
proof -
  from assms obtain r1 r2 e2 where
    s: "s = 32 # r1" and
    rp: "(32 # r2, e2) \<in> set (ms U Regex_Repeat (r1, []))" and
    k: "(r, e') \<in> set (ms U Regex_Kind (r2, e2))"
    unfolding log_suffix_def by (auto simp add: in_ms simp del: ms.simps in_class.simps)
  from repeat_inv[OF rp] kind_inv[OF k] s show ?thesis by auto
qed

lemma digits_sep:
  assumes "list_all (dg U) y" "list_all (dg U) y'" "\<not> dg U c" "y @ c # t = y' @ c # t'"
  shows "y = y' \<and> t = t'"
  using assms
proof (induction y arbitrary: y')
  case Nil
  then show ?case by (cases y') auto
next
  case (Cons a y)
  then show ?case by (cases y') auto
qed

lemma re_fullmatchD: "re_fullmatch U R s \<Longrightarrow> \<exists>e'. ([], e') \<in> set (ms U R (s, []))"
  by (force simp: re_fullmatch_def list_ex_iff)

lemma re_fullmatchI: "([], e') \<in> set (ms U R (s, [])) \<Longrightarrow> re_fullmatch U R s"
  by (force simp: re_fullmatch_def list_ex_iff)

lemma fullmatch_year:
  assumes "re_fullmatch U Regex_Year y"
  shows "([], [(''Year'', y)]) \<in> set (ms U Regex_Year (y, []))" "list_all (dg U) y"
    "length y = 2 \<or> length y = 4"
proof -
  from re_fullmatchD[OF assms] obtain e' where m: "([], e') \<in> set (ms U Regex_Year (y, []))" ..
  from year_inv[OF m] have "e' = [(''Year'', y)] \<and> list_all (dg U) y \<and> (length y = 2 \<or> length y = 4)"
    by auto
  with m show "([], [(''Year'', y)]) \<in> set (ms U Regex_Year (y, []))" "list_all (dg U) y"
    "length y = 2 \<or> length y = 4" by simp_all
qed

lemma fullmatch_month:
  assumes "re_fullmatch U Regex_Month y"
  shows "([], [(''Month'', y)]) \<in> set (ms U Regex_Month (y, []))" "list_all (dg U) y" "length y = 2"
    "month_text U y"
proof -
  from re_fullmatchD[OF assms] obtain e' where m: "([], e') \<in> set (ms U Regex_Month (y, []))" ..
  from month_inv[OF m] have "e' = [(''Month'', y)] \<and> list_all (dg U) y \<and> length y = 2 \<and> month_text U y"
    by auto
  with m show "([], [(''Month'', y)]) \<in> set (ms U Regex_Month (y, []))" "list_all (dg U) y"
    "length y = 2" "month_text U y" by simp_all
qed

lemma fullmatch_day:
  assumes "re_fullmatch U Regex_Day y"
  shows "([], [(''Day'', y)]) \<in> set (ms U Regex_Day (y, []))" "list_all (dg U) y" "length y = 2"
proof -
  from re_fullmatchD[OF assms] obtain e' where m: "([], e') \<in> set (ms U Regex_Day (y, []))" ..
  from day_inv[OF m] have "e' = [(''Day'', y)] \<and> list_all (dg U) y \<and> length y = 2"
    by auto
  with m show "([], [(''Day'', y)]) \<in> set (ms U Regex_Day (y, []))" "list_all (dg U) y"
    "length y = 2" by simp_all
qed

lemma fullmatch_hour:
  assumes "re_fullmatch U Regex_Hour y"
  shows "([], [(''Hour'', y)]) \<in> set (ms U Regex_Hour (y, []))" "list_all (dg U) y"
proof -
  from re_fullmatchD[OF assms] obtain e' where m: "([], e') \<in> set (ms U Regex_Hour (y, []))" ..
  from hour_inv[OF m] have "e' = [(''Hour'', y)] \<and> list_all (dg U) y"
    by auto
  with m show "([], [(''Hour'', y)]) \<in> set (ms U Regex_Hour (y, []))" "list_all (dg U) y"
    by simp_all
qed

lemma fullmatch_minute:
  assumes "re_fullmatch U Regex_Minute y"
  shows "([], [(''Minute'', y)]) \<in> set (ms U Regex_Minute (y, []))" "list_all (dg U) y" "length y = 2"
proof -
  from re_fullmatchD[OF assms] obtain e' where m: "([], e') \<in> set (ms U Regex_Minute (y, []))" ..
  from minute_inv[OF m] have "e' = [(''Minute'', y)] \<and> list_all (dg U) y \<and> length y = 2"
    by auto
  with m show "([], [(''Minute'', y)]) \<in> set (ms U Regex_Minute (y, []))" "list_all (dg U) y"
    "length y = 2" by simp_all
qed

lemma seqI:
  "(r1, e1) \<in> set (ms U a (s, e)) \<Longrightarrow> (r, e') \<in> set (ms U b (r1, e1)) \<Longrightarrow>
     (r, e') \<in> set (ms U (Seq a b) (s, e))"
  by (auto simp: in_ms_Seq)

lemma time_member:
  assumes h: "re_fullmatch U Regex_Hour h" and mi: "re_fullmatch U Regex_Minute mi"
  shows "(rest, (''Minute'', mi) # (''Hour'', h) # e) \<in> set (ms U Regex_Time (h @ 58 # mi @ rest, e))"
proof -
  have 1: "(58 # mi @ rest, (''Hour'', h) # e) \<in> set (ms U Regex_Hour (h @ 58 # mi @ rest, e))"
    using ms_extend[OF fullmatch_hour(1)[OF h], of "58 # mi @ rest" e] by simp
  have 2: "(mi @ rest, (''Hour'', h) # e) \<in> set (ms U (Lit CHR '':'') (58 # mi @ rest, (''Hour'', h) # e))"
    by simp
  have 3: "(rest, (''Minute'', mi) # (''Hour'', h) # e) \<in> set (ms U Regex_Minute (mi @ rest, (''Hour'', h) # e))"
    using ms_extend[OF fullmatch_minute(1)[OF mi], of rest "(''Hour'', h) # e"] by simp
  have 4: "(rest, (''Minute'', mi) # (''Hour'', h) # e) \<in>
      set (ms U (seqs [Opt (Seq (Lit CHR '':'') Regex_Second)]) (rest, (''Minute'', mi) # (''Hour'', h) # e))"
    by simp
  show ?thesis unfolding Regex_Time_def seqs.simps
    by (rule seqI[OF 1], rule seqI[OF 2], rule seqI[OF 3]) (use 4 in simp)
qed

lemma dash_member:
  assumes y: "re_fullmatch U Regex_Year y" and m: "re_fullmatch U Regex_Month m"
    and d: "re_fullmatch U Regex_Day d" and h: "re_fullmatch U Regex_Hour h"
    and mi: "re_fullmatch U Regex_Minute mi"
  shows "(rest, [(''Minute'', mi), (''Hour'', h), (''Day'', d), (''Month'', m), (''Year'', y)])
           \<in> set (ms U regex_dash (y @ 45 # m @ 45 # d @ 42 # h @ 58 # mi @ rest, []))"
proof -
  let ?t = "h @ 58 # mi @ rest"
  have 1: "(45 # m @ 45 # d @ 42 # ?t, [(''Year'', y)]) \<in> set (ms U Regex_Year (y @ 45 # m @ 45 # d @ 42 # ?t, []))"
    using ms_extend[OF fullmatch_year(1)[OF y], of "45 # m @ 45 # d @ 42 # ?t" "[]"] by simp
  have 2: "(m @ 45 # d @ 42 # ?t, [(''Year'', y)]) \<in> set (ms U (Lit CHR ''-'') (45 # m @ 45 # d @ 42 # ?t, [(''Year'', y)]))"
    by simp
  have 3: "(45 # d @ 42 # ?t, [(''Month'', m), (''Year'', y)]) \<in> set (ms U Regex_Month (m @ 45 # d @ 42 # ?t, [(''Year'', y)]))"
    using ms_extend[OF fullmatch_month(1)[OF m], of "45 # d @ 42 # ?t" "[(''Year'', y)]"] by simp
  have 4: "(d @ 42 # ?t, [(''Month'', m), (''Year'', y)]) \<in> set (ms U (Lit CHR ''-'') (45 # d @ 42 # ?t, [(''Month'', m), (''Year'', y)]))"
    by simp
  have 5: "(42 # ?t, [(''Day'', d), (''Month'', m), (''Year'', y)]) \<in> set (ms U Regex_Day (d @ 42 # ?t, [(''Month'', m), (''Year'', y)]))"
    using ms_extend[OF fullmatch_day(1)[OF d], of "42 # ?t" "[(''Month'', m), (''Year'', y)]"] by simp
  have 6: "(?t, [(''Day'', d), (''Month'', m), (''Year'', y)]) \<in> set (ms U (Lit CHR ''*'') (42 # ?t, [(''Day'', d), (''Month'', m), (''Year'', y)]))"
    by simp
  have 7: "(rest, [(''Minute'', mi), (''Hour'', h), (''Day'', d), (''Month'', m), (''Year'', y)]) \<in>
     set (ms U (seqs [Regex_Time]) (?t, [(''Day'', d), (''Month'', m), (''Year'', y)]))"
    using time_member[OF h mi, of rest "[(''Day'', d), (''Month'', m), (''Year'', y)]"]
    by (simp del: ms.simps add: in_ms_Seq in_ms_Eps)
  show ?thesis unfolding regex_dash_def seqs.simps(2)
    by (rule seqI[OF 1], rule seqI[OF 2], rule seqI[OF 3], rule seqI[OF 4], rule seqI[OF 5],
        rule seqI[OF 6]) (use 7 in \<open>simp only: seqs.simps\<close>)
qed

lemma slash_member:
  assumes y: "re_fullmatch U Regex_Year y" and m: "re_fullmatch U Regex_Month m"
    and d: "re_fullmatch U Regex_Day d" and h: "re_fullmatch U Regex_Hour h"
    and mi: "re_fullmatch U Regex_Minute mi"
  shows "(rest, [(''Minute'', mi), (''Hour'', h), (''Year'', y), (''Month'', m), (''Day'', d)])
           \<in> set (ms U regex_slash (d @ 47 # m @ 47 # y @ 32 # h @ 58 # mi @ rest, []))"
proof -
  let ?t = "h @ 58 # mi @ rest"
  have 1: "(47 # m @ 47 # y @ 32 # ?t, [(''Day'', d)]) \<in> set (ms U Regex_Day (d @ 47 # m @ 47 # y @ 32 # ?t, []))"
    using ms_extend[OF fullmatch_day(1)[OF d], of "47 # m @ 47 # y @ 32 # ?t" "[]"] by simp
  have 2: "(m @ 47 # y @ 32 # ?t, [(''Day'', d)]) \<in> set (ms U (Lit CHR ''/'') (47 # m @ 47 # y @ 32 # ?t, [(''Day'', d)]))"
    by simp
  have 3: "(47 # y @ 32 # ?t, [(''Month'', m), (''Day'', d)]) \<in> set (ms U Regex_Month (m @ 47 # y @ 32 # ?t, [(''Day'', d)]))"
    using ms_extend[OF fullmatch_month(1)[OF m], of "47 # y @ 32 # ?t" "[(''Day'', d)]"] by simp
  have 4: "(y @ 32 # ?t, [(''Month'', m), (''Day'', d)]) \<in> set (ms U (Lit CHR ''/'') (47 # y @ 32 # ?t, [(''Month'', m), (''Day'', d)]))"
    by simp
  have 5: "(32 # ?t, [(''Year'', y), (''Month'', m), (''Day'', d)]) \<in> set (ms U Regex_Year (y @ 32 # ?t, [(''Month'', m), (''Day'', d)]))"
    using ms_extend[OF fullmatch_year(1)[OF y], of "32 # ?t" "[(''Month'', m), (''Day'', d)]"] by simp
  have 6: "(?t, [(''Year'', y), (''Month'', m), (''Day'', d)]) \<in> set (ms U (Lit CHR '' '') (32 # ?t, [(''Year'', y), (''Month'', m), (''Day'', d)]))"
    by simp
  have 7: "(rest, [(''Minute'', mi), (''Hour'', h), (''Year'', y), (''Month'', m), (''Day'', d)]) \<in>
     set (ms U (seqs [Regex_Time]) (?t, [(''Year'', y), (''Month'', m), (''Day'', d)]))"
    using time_member[OF h mi, of rest "[(''Year'', y), (''Month'', m), (''Day'', d)]"]
    by (simp del: ms.simps add: in_ms_Seq in_ms_Eps)
  show ?thesis unfolding regex_slash_def seqs.simps(2)
    by (rule seqI[OF 1], rule seqI[OF 2], rule seqI[OF 3], rule seqI[OF 4], rule seqI[OF 5],
        rule seqI[OF 6]) (use 7 in \<open>simp only: seqs.simps\<close>)
qed

lemma dash_unique:
  assumes y: "list_all (dg U) y" and m: "length m = 2" and d: "length d = 2"
    and h: "list_all (dg U) h" and mi: "length mi = 2"
    and rest: "ms U (Seq (Lit CHR '':'') Regex_Second) (rest, []) = []"
    and mem: "(r, e') \<in> set (ms U regex_dash (y @ 45 # m @ 45 # d @ 42 # h @ 58 # mi @ rest, []))"
  shows "groupdict e' = \<lparr>Year = Some y, Month = Some m, Day = Some d, Hour = Some h,
            Minute = Some mi, Second = None\<rparr>"
proof -
  from dash_fields[OF mem] obtain y' m' d' h' mi' tl where
    g: "groupdict e' = \<lparr>Year = Some y', Month = Some m', Day = Some d', Hour = Some h',
            Minute = Some mi', Second = map_of e' ''Second''\<rparr>" and
    f: "list_all (dg U) y'" "length m' = 2" "length d' = 2" "list_all (dg U) h'" "length mi' = 2" and
    s: "y @ 45 # m @ 45 # d @ 42 # h @ 58 # mi @ rest = y' @ 45 # m' @ 45 # d' @ 42 # h' @ 58 # mi' @ tl" and
    sec: "map_of e' ''Second'' \<noteq> None \<longrightarrow> ms U (Seq (Lit CHR '':'') Regex_Second) (tl, []) \<noteq> []"
    by blast
  from digits_sep[OF y f(1) _ s] have 1: "y = y'" "m @ 45 # d @ 42 # h @ 58 # mi @ rest = m' @ 45 # d' @ 42 # h' @ 58 # mi' @ tl"
    by simp_all
  from 1(2) m f(2) have 2: "m = m'" "d @ 42 # h @ 58 # mi @ rest = d' @ 42 # h' @ 58 # mi' @ tl" by simp_all
  from 2(2) d f(3) have 3: "d = d'" "h @ 58 # mi @ rest = h' @ 58 # mi' @ tl" by simp_all
  from digits_sep[OF h f(4) _ 3(2)] have 4: "h = h'" "mi @ rest = mi' @ tl" by simp_all
  from 4(2) mi f(5) have 5: "mi = mi'" "rest = tl" by simp_all
  from sec rest 5(2) have "map_of e' ''Second'' = None" by auto
  with g 1(1) 2(1) 3(1) 4(1) 5(1) show ?thesis by simp
qed

lemma slash_unique:
  assumes y: "list_all (dg U) y" and m: "length m = 2" and d: "length d = 2"
    and h: "list_all (dg U) h" and mi: "length mi = 2"
    and rest: "ms U (Seq (Lit CHR '':'') Regex_Second) (rest, []) = []"
    and mem: "(r, e') \<in> set (ms U regex_slash (d @ 47 # m @ 47 # y @ 32 # h @ 58 # mi @ rest, []))"
  shows "groupdict e' = \<lparr>Year = Some y, Month = Some m, Day = Some d, Hour = Some h,
            Minute = Some mi, Second = None\<rparr>"
proof -
  from slash_fields[OF mem] obtain y' m' d' h' mi' tl where
    g: "groupdict e' = \<lparr>Year = Some y', Month = Some m', Day = Some d', Hour = Some h',
            Minute = Some mi', Second = map_of e' ''Second''\<rparr>" and
    f: "list_all (dg U) y'" "length m' = 2" "length d' = 2" "list_all (dg U) h'" "length mi' = 2" and
    s: "d @ 47 # m @ 47 # y @ 32 # h @ 58 # mi @ rest = d' @ 47 # m' @ 47 # y' @ 32 # h' @ 58 # mi' @ tl" and
    sec: "map_of e' ''Second'' \<noteq> None \<longrightarrow> ms U (Seq (Lit CHR '':'') Regex_Second) (tl, []) \<noteq> []"
    by blast
  from s d f(3) have 1: "d = d'" "m @ 47 # y @ 32 # h @ 58 # mi @ rest = m' @ 47 # y' @ 32 # h' @ 58 # mi' @ tl" by simp_all
  from 1(2) m f(2) have 2: "m = m'" "y @ 32 # h @ 58 # mi @ rest = y' @ 32 # h' @ 58 # mi' @ tl" by simp_all
  from digits_sep[OF y f(1) _ 2(2)] have 3: "y = y'" "h @ 58 # mi @ rest = h' @ 58 # mi' @ tl"
    by simp_all
  from digits_sep[OF h f(4) _ 3(2)] have 4: "h = h'" "mi @ rest = mi' @ tl" by simp_all
  from 4(2) mi f(5) have 5: "mi = mi'" "rest = tl" by simp_all
  from sec rest 5(2) have "map_of e' ''Second'' = None" by auto
  with g 1(1) 2(1) 3(1) 4(1) 5(1) show ?thesis by simp
qed

lemma re_match_all:
  assumes "(r, e') \<in> set (ms U R (s, []))"
    and "\<And>r e'. (r, e') \<in> set (ms U R (s, [])) \<Longrightarrow> groupdict e' = ts"
  shows "\<exists>e0. re_match U R s = Some e0 \<and> groupdict e0 = ts"
proof (cases "ms U R (s, [])")
  case Nil
  with assms(1) show ?thesis by simp
next
  case (Cons st rest)
  then have "(fst st, snd st) \<in> set (ms U R (s, []))" by simp
  from assms(2)[OF this] Cons show ?thesis by (cases st) (simp add: re_match_def)
qed

lemma dash_parse:
  assumes y: "re_fullmatch U Regex_Year y" and m: "re_fullmatch U Regex_Month m"
    and d: "re_fullmatch U Regex_Day d" and h: "re_fullmatch U Regex_Hour h"
    and mi: "re_fullmatch U Regex_Minute mi"
    and rest: "re_match U (Seq (Lit CHR '':'') Regex_Second) rest = None"
  shows "parse_time_str U (y @ 45 # m @ 45 # d @ 42 # h @ 58 # mi @ rest) =
           Some \<lparr>Year = Some y, Month = Some m, Day = Some d, Hour = Some h,
                 Minute = Some mi, Second = None\<rparr>"
proof -
  from rest have r: "ms U (Seq (Lit CHR '':'') Regex_Second) (rest, []) = []"
    by (simp only: re_match_None)
  have "\<exists>e0. re_match U regex_dash (y @ 45 # m @ 45 # d @ 42 # h @ 58 # mi @ rest) = Some e0 \<and>
      groupdict e0 = \<lparr>Year = Some y, Month = Some m, Day = Some d, Hour = Some h,
                 Minute = Some mi, Second = None\<rparr>"
    by (rule re_match_all[OF dash_member[OF y m d h mi]])
       (rule dash_unique[OF fullmatch_year(2)[OF y] fullmatch_month(3)[OF m] fullmatch_day(3)[OF d]
          fullmatch_hour(2)[OF h] fullmatch_minute(3)[OF mi] r])
  then show ?thesis by (auto simp: parse_time_str_def)
qed

lemma slash_parse:
  assumes y: "re_fullmatch U Regex_Year y" and m: "re_fullmatch U Regex_Month m"
    and d: "re_fullmatch U Regex_Day d" and h: "re_fullmatch U Regex_Hour h"
    and mi: "re_fullmatch U Regex_Minute mi"
    and rest: "re_match U (Seq (Lit CHR '':'') Regex_Second) rest = None"
  shows "parse_time_str U (d @ 47 # m @ 47 # y @ 32 # h @ 58 # mi @ rest) =
           Some \<lparr>Year = Some y, Month = Some m, Day = Some d, Hour = Some h,
                 Minute = Some mi, Second = None\<rparr>"
proof -
  let ?s = "d @ 47 # m @ 47 # y @ 32 # h @ 58 # mi @ rest"
  from rest have r: "ms U (Seq (Lit CHR '':'') Regex_Second) (rest, []) = []"
    by (simp only: re_match_None)
  have "\<exists>e0. re_match U regex_slash ?s = Some e0 \<and>
      groupdict e0 = \<lparr>Year = Some y, Month = Some m, Day = Some d, Hour = Some h,
                 Minute = Some mi, Second = None\<rparr>"
    by (rule re_match_all[OF slash_member[OF y m d h mi]])
       (rule slash_unique[OF fullmatch_year(2)[OF y] fullmatch_month(3)[OF m] fullmatch_day(3)[OF d]
          fullmatch_hour(2)[OF h] fullmatch_minute(3)[OF mi] r])
  then obtain e0 where e0: "re_match U regex_slash ?s = Some e0" "groupdict e0 = \<lparr>Year = Some y, Month = Some m, Day = Some d, Hour = Some h,
                 Minute = Some mi, Second = None\<rparr>" by blast
  from dash_not_slash[OF e0(1), of "[]"] have "re_match U regex_dash ?s = None" by simp
  with e0 show ?thesis by (simp add: parse_time_str_def)
qed

lemma many1_iff: "r \<in> set (many1 p s) \<longleftrightarrow> (\<exists>w. s = w @ r \<and> w \<noteq> [] \<and> list_all p w)"
  using many1_suffix[of r p s] many1_prefix[of _ p r] by blast

lemma concat_many1_first:
  assumes "concat (map f (many1 p s)) = y # ys"
  shows "\<exists>r \<in> set (many1 p s). (\<exists>zs. f r = y # zs) \<and>
           (\<forall>r' \<in> set (many1 p s). f r' \<noteq> [] \<longrightarrow> length r \<le> length r')"
  using assms
proof (induction s arbitrary: ys)
  case Nil
  then show ?case by simp
next
  case (Cons c cs)
  from Cons.prems have pc: "p c" by (auto split: if_splits)
  with Cons.prems have eq: "concat (map f (many1 p cs)) @ f cs = y # ys" by simp
  show ?case
  proof (cases "concat (map f (many1 p cs))")
    case Nil
    with eq have "f cs = y # ys" by simp
    moreover from Nil have "\<forall>r' \<in> set (many1 p cs). f r' = []" by auto
    ultimately show ?thesis using pc by auto
  next
    case (Cons y' ys')
    with eq have "y' = y" by simp
    with Cons Cons.IH[of ys'] obtain r where r: "r \<in> set (many1 p cs)" "\<exists>zs. f r = y # zs"
      "\<forall>r' \<in> set (many1 p cs). f r' \<noteq> [] \<longrightarrow> length r \<le> length r'" by blast
    from many1_shorter[OF r(1)] have "length r \<le> length cs" by simp
    with r pc show ?thesis by auto
  qed
qed

lemma log_regex_split: "log_regex = Seq (Plus Dot) log_suffix"
  by (simp add: log_regex_def log_suffix_def)

lemma dot_class: "list_all (in_class U Dot) w \<longleftrightarrow> 10 \<notin> set w"
  by (induction w) auto

lemma log_regex_first:
  assumes "re_match U log_regex line = Some groups"
  shows "\<exists>pre rest. line = pre @ rest \<and> pre \<noteq> [] \<and> 10 \<notin> set pre \<and>
           re_match U log_suffix rest = Some groups \<and>
           (\<forall>pre' rest'. line = pre' @ rest' \<and> pre' \<noteq> [] \<and> 10 \<notin> set pre' \<and>
                re_match U log_suffix rest' \<noteq> None \<longrightarrow> length pre' \<le> length pre)"
proof -
  let ?f = "\<lambda>r. ms U log_suffix (r, [])"
  from assms obtain r0 tl where
    "concat (map ?f (many1 (in_class U Dot) line)) = (r0, groups) # tl"
    by (auto simp: re_match_Some log_regex_split comp_def)
  from concat_many1_first[OF this] obtain rest zs where
    r: "rest \<in> set (many1 (in_class U Dot) line)" "?f rest = (r0, groups) # zs"
       "\<forall>r' \<in> set (many1 (in_class U Dot) line). ?f r' \<noteq> [] \<longrightarrow> length rest \<le> length r'"
    by blast
  from r(1) obtain pre where pre: "line = pre @ rest" "pre \<noteq> []" "10 \<notin> set pre"
    by (auto simp: many1_iff dot_class)
  have m: "re_match U log_suffix rest = Some groups" using r(2) by (simp add: re_match_def)
  have mx: "length pre' \<le> length pre"
    if "line = pre' @ rest'" "pre' \<noteq> []" "10 \<notin> set pre'" "re_match U log_suffix rest' \<noteq> None"
    for pre' rest'
  proof -
    from that(1-3) have "rest' \<in> set (many1 (in_class U Dot) line)"
      by (auto simp: many1_iff dot_class)
    moreover from that(4) have "?f rest' \<noteq> []" by (simp add: re_match_None)
    ultimately have "length rest \<le> length rest'" using r(3) by blast
    moreover from pre(1) that(1) have "length pre' + length rest' = length pre + length rest"
      by (simp flip: length_append)
    ultimately show ?thesis by linarith
  qed
  from pre m mx show ?thesis by blast
qed

lemma length2_cases: "length m = 2 \<Longrightarrow> \<exists>a b. m = [a, b]"
  by (auto simp: length_Suc_conv numeral_2_eq_2)

lemma month_text_cases:
  "month_text U m \<longleftrightarrow> m = [49, 48] \<or> m = [49, 49] \<or> m = [49, 50] \<or> (\<exists>b. m = [48, b] \<and> dg U b)"
proof
  assume "month_text U m"
  then show "m = [49, 48] \<or> m = [49, 49] \<or> m = [49, 50] \<or> (\<exists>b. m = [48, b] \<and> dg U b)"
    unfolding month_text_def dg_def[symmetric]
    by (auto simp: str_def dest!: length2_cases)
next
  assume "m = [49, 48] \<or> m = [49, 49] \<or> m = [49, 50] \<or> (\<exists>b. m = [48, b] \<and> dg U b)"
  then show "month_text U m"
    unfolding month_text_def dg_def[symmetric]
    by (auto simp: str_def)
qed

lemma month_text_fullmatch: "month_text U m \<longleftrightarrow> re_fullmatch U Regex_Month m"
proof
  assume "month_text U m"
  then consider b where "m = [49, b]" "b = 48 \<or> b = 49 \<or> b = 50" | b where "m = [48, b]" "dg U b"
    unfolding month_text_cases by blast
  then have "([], [(''Month'', m)]) \<in> set (ms U Regex_Month (m, []))"
  proof cases
    case 1
    then show ?thesis unfolding Regex_Month_def
      by (simp add: in_ms in_ms_Group r02 del: ms.simps in_class.simps)
  next
    case 2
    then show ?thesis unfolding Regex_Month_def
      by (simp add: in_ms in_ms_Group r02 dg_def[symmetric] del: ms.simps in_class.simps)
  qed
  then show "re_fullmatch U Regex_Month m" by (rule re_fullmatchI)
next
  assume "re_fullmatch U Regex_Month m"
  then show "month_text U m" by (rule fullmatch_month(4))
qed

lemma month_text_value:
  assumes "month_text U m"
  shows "\<exists>n. int_of_str U m = Inr n \<and> 0 \<le> n \<and> n \<le> 12"
proof -
  from assms consider "m = [49, 48]" | "m = [49, 49]" | "m = [49, 50]" | b where "m = [48, b]" "dg U b"
    unfolding month_text_cases by blast
  then show ?thesis
  proof cases
    case 4
    with dg_digit_val[OF 4(2)] show ?thesis
      by (simp add: int_of_str_digits) (simp add: digit_val_def)
  qed (simp_all add: int_of_str_digits, simp_all add: digit_val_def)
qed

lemma parsed_converts:
  assumes "parse_time_str U s = Some ts"
  shows "\<exists>y m d h mi sec. int_or_0 U (Year ts) = Inr y \<and> int_or_0 U (Month ts) = Inr m \<and>
           int_or_0 U (Day ts) = Inr d \<and> int_or_0 U (Hour ts) = Inr h \<and>
           int_or_0 U (Minute ts) = Inr mi \<and> int_or_0 U (Second ts) = Inr sec \<and>
           TimeStamp_datetime U ts = datetime_new y m d h mi sec"
proof -
  from parsed_fields[OF assms] obtain y m d h mi where
    ts: "ts = \<lparr>Year = Some y, Month = Some m, Day = Some d, Hour = Some h,
            Minute = Some mi, Second = Second ts\<rparr>" and
    f: "list_all (dg U) y" "length y = 2 \<or> length y = 4" "list_all (dg U) m" "length m = 2"
       "list_all (dg U) d" "length d = 2" "h \<noteq> []" "list_all (dg U) h" "length mi = 2"
       "list_all (dg U) mi" "\<forall>x. Second ts = Some x \<longrightarrow> length x = 2 \<and> list_all (dg U) x"
    by blast
  from ts have sel: "Year ts = Some y" "Month ts = Some m" "Day ts = Some d" "Hour ts = Some h"
    "Minute ts = Some mi" by (metis TimeStamp.select_convs)+
  from f have ne: "y \<noteq> []" "m \<noteq> []" "d \<noteq> []" "mi \<noteq> []" by auto
  have sec: "\<exists>n. int_or_0 U (Second ts) = Inr n"
  proof (cases "Second ts")
    case None
    then show ?thesis by (simp add: int_or_0_def)
  next
    case (Some x)
    with f(11) have "list_all (dg U) x" "x \<noteq> []" by auto
    with Some show ?thesis by (simp add: int_or_0_digits)
  qed
  then obtain n where n: "int_or_0 U (Second ts) = Inr n" ..
  show ?thesis
    using sel n f ne by (simp add: TimeStamp_datetime_def int_or_0_digits)
qed

lemma month_zero_rejected:
  assumes "parse_time_str U s = Some ts" "int_or_0 U (Month ts) = Inr 0"
  shows "\<exists>y d h mi sec. int_or_0 U (Year ts) = Inr y \<and>
           int_or_0 U (Day ts) = Inr d \<and> int_or_0 U (Hour ts) = Inr h \<and>
           int_or_0 U (Minute ts) = Inr mi \<and> int_or_0 U (Second ts) = Inr sec \<and>
           TimeStamp_datetime U ts = datetime_new y 0 d h mi sec \<and>
           datetime_new y 0 d h mi sec = Inl ValueError"
proof -
  from parsed_converts[OF assms(1)] assms(2) obtain y d h mi sec where
    "int_or_0 U (Year ts) = Inr y" "int_or_0 U (Day ts) = Inr d" "int_or_0 U (Hour ts) = Inr h"
    "int_or_0 U (Minute ts) = Inr mi" "int_or_0 U (Second ts) = Inr sec"
    "TimeStamp_datetime U ts = datetime_new y 0 d h mi sec" by auto
  moreover have "datetime_new y 0 d h mi sec = Inl ValueError" by (simp add: datetime_new_def)
  ultimately show ?thesis by blast
qed

lemma length4_cases: "length m = 4 \<Longrightarrow> \<exists>a b c d. m = [a, b, c, d]"
  by (auto simp: length_Suc_conv numeral_eq_Suc)

lemma year_prefix_two:
  assumes "length y = 2" "list_all (dg U) ya" "length ya = 2 \<or> length ya = 4" "\<not> dg U c"
    "y @ c # t = ya @ rst"
  shows "ya = y"
  using assms(3)
proof
  assume "length ya = 2"
  with assms(1,5) show ?thesis by simp
next
  assume "length ya = 4"
  then obtain a b c' d' where "ya = [a, b, c', d']" by (blast dest: length4_cases)
  moreover from assms(1) obtain y1 y2 where "y = [y1, y2]" by (blast dest: length2_cases)
  ultimately show ?thesis using assms(2,4,5) by auto
qed

section \<open>Properties of the frame operations\<close>

lemma map_of_update_column:
  "map_of (update_column c v cols) = (map_of cols)(c \<mapsto> v)"
  by (induction cols) (auto simp: fun_eq_iff)

lemma keys_update_column:
  "fst ` set (update_column c v cols) = insert c (fst ` set cols)"
  by (induction cols) auto

lemma filter_key_single:
  "distinct (map fst cols) \<Longrightarrow> map_of cols c = Some v \<Longrightarrow>
   filter (\<lambda>col. fst col = c) cols = [(c, v)]"
proof (induction cols)
  case Nil
  then show ?case by simp
next
  case (Cons col cols)
  show ?case
  proof (cases "fst col = c")
    case True
    with Cons.prems have "snd col = v" "\<forall>x \<in> set cols. fst x \<noteq> c" by (auto simp: image_iff)
    then have "filter (\<lambda>col. fst col = c) cols = []" by (simp add: filter_empty_conv)
    with True \<open>snd col = v\<close> show ?thesis by (cases col) simp
  next
    case False
    with Cons show ?thesis by simp
  qed
qed

lemma map_of_renamed:
  assumes "inj_on f (insert c (fst ` set cols))"
  shows "map_of (map (\<lambda>col. (f (fst col), snd col)) cols) (f c) = map_of cols c"
  using assms
proof (induction cols)
  case Nil
  then show ?case by simp
next
  case (Cons col cols)
  from Cons.prems have inj: "inj_on f (insert c (fst ` set cols))"
    by (rule inj_on_subset) auto
  from Cons.prems have "f c = f (fst col) \<longleftrightarrow> c = fst col"
    by (auto simp: inj_on_def)
  with Cons.IH[OF inj] show ?case by auto
qed

lemma map_of_filter_keys:
  "map_of (filter (\<lambda>col. P (fst col)) cols) c = (if P c then map_of cols c else None)"
  by (induction cols) auto


lemma rename_inj:
  assumes "''TimeStamp'' \<notin> K" "''Repeat'' \<notin> K"
  shows "inj_on (\<lambda>c. case map_of [(''startdate'', ''TimeStamp''), (''value'', ''Repeat'')] c of
                     None \<Rightarrow> c | Some c' \<Rightarrow> c') K"
  using assms by (auto simp: inj_on_def split: if_splits)

lemma set_update_column: "set (update_column c v cols) \<subseteq> insert (c, v) (set cols)"
  by (induction cols) auto

section \<open>Properties of the float operations\<close>

text \<open>
  \<open>ilog2\<close> is the binary exponent, and \<open>float_of x\<close> lies within half a unit in the
  last place of \<open>x\<close>, the unit being \<open>2 ^ (e - 52)\<close> for the exponent \<open>e\<close> of \<open>x\<close>.
\<close>


lemma pow2_pos: "0 < pow2 k"
  by (simp add: pow2_def)

lemma pow2_power_int: "pow2 k = power_int 2 k"
  by (simp add: pow2_def power_int_def inverse_eq_divide power_one_over[symmetric])

lemma pow2_shift: "pow2 (k - 52) * 2 ^ 52 = pow2 k"
proof -
  have "pow2 k = power_int 2 ((k - 52) + 52)" by (simp add: pow2_power_int)
  also have "\<dots> = power_int 2 (k - 52) * power_int (2::rat) 52"
    by (rule power_int_add) simp
  finally show ?thesis by (simp add: pow2_power_int)
qed

lemma round_half_even_near: "\<bar>of_int (round_half_even y) - y\<bar> \<le> 1 / 2"
proof -
  have "of_int \<lfloor>y\<rfloor> \<le> y" "y < of_int \<lfloor>y\<rfloor> + 1" by linarith+
  then show ?thesis by (auto simp: round_half_even_def Let_def)
qed

lemma ilog2_bounds:
  assumes "0 < x"
  shows "pow2 (ilog2 x) \<le> x \<and> x < pow2 (ilog2 x + 1)"
proof (cases "1 \<le> x")
  case True
  define n where "n = \<lfloor>x\<rfloor>"
  define b where "b = bitlen n"
  from True have n: "1 \<le> n" by (simp add: n_def le_floor_iff)
  then have bb: "2 ^ nat (b - 1) \<le> n" "n < 2 ^ nat b"
    using bitlen_bounds[of n] by (simp_all add: b_def)
  from n have b1: "1 \<le> b" using bitlen_eq_zero_iff[of n] bitlen_nonneg[of n] by (simp add: b_def)
  have il: "ilog2 x = b - 1" using True by (simp add: ilog2_def n_def b_def)
  have "(2::rat) ^ nat (b - 1) = of_int (2 ^ nat (b - 1))" by simp
  also have "\<dots> \<le> of_int n" using bb(1) by (simp only: of_int_le_iff)
  also have "\<dots> \<le> x" unfolding n_def by linarith
  finally have lo: "pow2 (b - 1) \<le> x" using b1 by (simp add: pow2_def)
  have "x < of_int n + 1" unfolding n_def by linarith
  also have "\<dots> = of_int (n + 1)" by simp
  also have "\<dots> \<le> of_int (2 ^ nat b)" using bb(2) by (simp only: of_int_le_iff)
  also have "\<dots> = (2::rat) ^ nat b" by simp
  finally have hi: "x < pow2 b" using b1 by (simp add: pow2_def)
  from lo hi il show ?thesis by simp
next
  case False
  define y where "y = 1 / x"
  define n where "n = \<lceil>y\<rceil> - 1"
  define b where "b = bitlen n"
  from False assms have y1: "1 < y" by (simp add: y_def)
  then have n: "1 \<le> n" by (simp add: n_def less_ceiling_iff)
  then have bb: "2 ^ nat (b - 1) \<le> n" "n < 2 ^ nat b"
    using bitlen_bounds[of n] by (simp_all add: b_def)
  from n have b1: "1 \<le> b" using bitlen_eq_zero_iff[of n] bitlen_nonneg[of n] by (simp add: b_def)
  have il: "ilog2 x = - b" using False by (simp add: ilog2_def n_def b_def y_def)
  have ny: "of_int n < y" "y \<le> of_int n + 1"
    unfolding n_def by linarith+
  have x: "x = 1 / y" using assms by (simp add: y_def)
  have "y \<le> of_int (n + 1)" using ny(2) by simp
  also have "\<dots> \<le> of_int (2 ^ nat b)" using bb(2) by (simp only: of_int_le_iff)
  also have "\<dots> = (2::rat) ^ nat b" by simp
  finally have "1 / (2::rat) ^ nat b \<le> 1 / y" using y1 by (simp add: frac_le)
  then have lo: "pow2 (- b) \<le> x" using b1 x by (simp add: pow2_def)
  have hi: "x < pow2 (- b + 1)"
  proof (cases "b = 1")
    case True
    with False show ?thesis by (simp add: pow2_def)
  next
    case nb: False
    have "(2::rat) ^ nat (b - 1) = of_int (2 ^ nat (b - 1))" by simp
    also have "\<dots> \<le> of_int n" using bb(1) by (simp only: of_int_le_iff)
    also have "\<dots> < y" by (rule ny(1))
    finally have "1 / y < 1 / (2::rat) ^ nat (b - 1)" by (simp add: frac_less2)
    moreover have "pow2 (- b + 1) = 1 / 2 ^ nat (b - 1)" using b1 nb by (simp add: pow2_def)
    ultimately show ?thesis using x by simp
  qed
  from lo hi il show ?thesis by simp
qed

lemma float_of_error:
  assumes "x \<noteq> 0"
  shows "\<bar>float_of x - x\<bar> \<le> pow2 (ilog2 \<bar>x\<bar> - 52) / 2 \<and> pow2 (ilog2 \<bar>x\<bar> - 52) * 2 ^ 52 \<le> \<bar>x\<bar>"
proof -
  define u where "u = pow2 (ilog2 \<bar>x\<bar> - 52)"
  have u: "0 < u" by (simp add: u_def pow2_pos)
  have "float_of x - x = (of_int (round_half_even (x / u)) - x / u) * u"
    using assms u by (simp add: float_of_def Let_def u_def[symmetric] algebra_simps)
  then have "\<bar>float_of x - x\<bar> = \<bar>of_int (round_half_even (x / u)) - x / u\<bar> * u"
    using u by (simp add: abs_mult)
  also have "\<dots> \<le> 1 / 2 * u"
    using round_half_even_near[of "x / u"] u by (intro mult_right_mono) auto
  finally have 1: "\<bar>float_of x - x\<bar> \<le> u / 2" by simp
  have "pow2 (ilog2 \<bar>x\<bar> - 52) * 2 ^ 52 = pow2 (ilog2 \<bar>x\<bar>)"
    by (rule pow2_shift)
  with ilog2_bounds[of "\<bar>x\<bar>"] assms 1 show ?thesis by (simp add: u_def)
qed

lemma float_of_close:
  assumes "\<bar>x\<bar> \<le> B"
  shows "\<bar>float_of x - x\<bar> \<le> B / 2 ^ 53"
proof (cases "x = 0")
  case True
  with assms show ?thesis by (simp add: float_of_def)
next
  case False
  define u where "u = pow2 (ilog2 \<bar>x\<bar> - 52)"
  from float_of_error[OF False] have 1: "\<bar>float_of x - x\<bar> \<le> u / 2" and 2: "u * 2 ^ 52 \<le> \<bar>x\<bar>"
    by (simp_all add: u_def)
  from 2 assms have "u * 2 ^ 52 \<le> B" by simp
  then have "u / 2 \<le> B / 2 ^ 53" by (simp add: field_simps)
  with 1 show ?thesis by simp
qed

lemma tenth_sum_close:
  assumes h: "0 \<le> h" "h \<le> 23" and k: "0 \<le> k" "k \<le> 10"
  shows "\<bar>float_of (of_int h + float_of (of_int k / 10)) - (of_int h + of_int k / 10)\<bar> \<le> 1 / 2 ^ 48"
proof -
  define s where "s = float_of (of_int k / 10)"
  have "\<bar>of_int k / 10 :: rat\<bar> \<le> 1" using k by simp
  from float_of_close[OF this] have 1: "\<bar>s - of_int k / 10\<bar> \<le> 1 / 2 ^ 53" by (simp add: s_def)
  have "\<bar>s\<bar> \<le> \<bar>s - of_int k / 10\<bar> + \<bar>of_int k / 10 :: rat\<bar>" by simp
  also have "\<dots> \<le> 1 / 2 ^ 53 + 1" using 1 k by simp
  finally have s2: "\<bar>s\<bar> \<le> 2" by simp
  have "\<bar>of_int h + s\<bar> \<le> \<bar>of_int h :: rat\<bar> + \<bar>s\<bar>" by simp
  also have "\<dots> \<le> 23 + 2" using h s2 by (intro add_mono) simp_all
  finally have "\<bar>of_int h + s\<bar> \<le> 25" by simp
  from float_of_close[OF this] have 2: "\<bar>float_of (of_int h + s) - (of_int h + s)\<bar> \<le> 25 / 2 ^ 53" .
  have "\<bar>float_of (of_int h + s) - (of_int h + of_int k / 10)\<bar> \<le>
        \<bar>float_of (of_int h + s) - (of_int h + s)\<bar> + \<bar>s - of_int k / 10\<bar>"
    by simp
  also have "\<dots> \<le> 25 / 2 ^ 53 + 1 / 2 ^ 53" using 1 2 by (rule add_mono[rotated])
  also have "\<dots> \<le> 1 / 2 ^ 48" by simp
  finally show ?thesis by (simp add: s_def)
qed

lemma tenth_range:
  assumes "0 \<le> m" "m \<le> 59" "\<bar>of_int k / 10 - of_int m / 60 :: rat\<bar> \<le> 1 / 20"
  shows "0 \<le> k \<and> k \<le> 10"
proof -
  have "(of_int m :: rat) \<le> 59" "(0 :: rat) \<le> of_int m" using assms(1,2) by simp_all
  with assms(3) have "(of_int k :: rat) < 11" "(-1 :: rat) < of_int k"
    by (simp_all add: abs_le_iff field_simps)
  then have "k < 11" "-1 < k" by (simp_all only: of_int_less_iff[symmetric, where 'a = rat] of_int_numeral of_int_minus of_int_1)
  then show ?thesis by simp
qed

text \<open>The steps of \<^verbatim>\<open>time_function\<close>, minute by minute.\<close>


lemma floor_rat_numeral: "\<lfloor>numeral a / numeral b :: rat\<rfloor> = numeral a div numeral b"
  by (metis floor_divide_of_int_eq of_int_numeral)

lemma ceiling_rat_numeral: "\<lceil>numeral a / numeral b :: rat\<rceil> = - (- numeral a div numeral b)"
  by (metis ceiling_def floor_divide_of_int_eq of_int_minus of_int_numeral minus_divide_left)

lemma floor_rat_one: "\<lfloor>1 / numeral b :: rat\<rfloor> = 1 div numeral b"
  by (metis floor_divide_of_int_eq of_int_numeral of_int_1)

lemma ceiling_rat_one: "\<lceil>1 / numeral b :: rat\<rceil> = - (- 1 div numeral b)"
  by (metis ceiling_def floor_divide_of_int_eq of_int_minus of_int_numeral of_int_1 minus_divide_left)

lemma bitlen_numeral:
  "bitlen 1 = 1"
  "bitlen (numeral Num.One) = 1"
  "bitlen (numeral (Num.Bit0 n)) = bitlen (numeral n) + 1"
  "bitlen (numeral (Num.Bit1 n)) = bitlen (numeral n) + 1"
proof -
  show "bitlen 1 = 1" by (subst compute_bitlen) simp
  then show "bitlen (numeral Num.One) = 1" by simp
  have "numeral (Num.Bit0 n) div (2::int) = numeral n" by simp
  then show "bitlen (numeral (Num.Bit0 n)) = bitlen (numeral n) + 1"
    by (subst compute_bitlen) simp
  have "numeral (Num.Bit1 n) div (2::int) = numeral n" by simp
  then show "bitlen (numeral (Num.Bit1 n)) = bitlen (numeral n) + 1"
    by (subst compute_bitlen) simp
qed

lemmas float_eval = float_of_def ilog2_def pow2_def round_half_even_def Let_def truediv_def
  fmul_def fadd_def py_round_def py_round1_def bitlen_numeral floor_rat_numeral ceiling_rat_numeral
  floor_rat_one ceiling_rat_one

lemma minutes_upto:
  "[0..59] =
     [0, 1, 2, 3, 4, 5, 6, 7, 8, 9, 10, 11, 12, 13, 14, 15, 16, 17, 18, 19, 20, 21, 22, 23,
      24, 25, 26, 27, 28, 29, 30, 31, 32, 33, 34, 35, 36, 37, 38, 39, 40, 41, 42, 43,
      44, 45, 46, 47, 48, 49, 50, 51, 52, 53, 54, 55, 56, 57, 58, 59]"
  by code_simp

lemma quarters_upto:
  "[0..96] =
     [0, 1, 2, 3, 4, 5, 6, 7, 8, 9, 10, 11, 12, 13, 14, 15, 16, 17, 18, 19, 20, 21, 22, 23,
      24, 25, 26, 27, 28, 29, 30, 31, 32, 33, 34, 35, 36, 37, 38, 39, 40, 41, 42, 43,
      44, 45, 46, 47, 48, 49, 50, 51, 52, 53, 54, 55, 56, 57, 58, 59, 60, 61, 62, 63,
      64, 65, 66, 67, 68, 69, 70, 71, 72, 73, 74, 75, 76, 77, 78, 79, 80, 81, 82, 83,
      84, 85, 86, 87, 88, 89, 90, 91, 92, 93, 94, 95, 96]"
  by code_simp

lemma whole_hour_steps:
  "\<forall>m \<in> set [0..59]. py_round (truediv m 60) = round_half_even (of_int m / 60)"
  unfolding minutes_upto
  apply simp
  apply (simp add: float_eval)
  done

lemma half_hour_steps:
  "\<forall>m \<in> set [0..59]. py_round (fmul (truediv m 60) 2) = round_half_even (of_int m / 60 * 2)"
  unfolding minutes_upto
  apply simp
  apply (simp add: float_eval)
  done

lemma quarter_hour_steps:
  "\<forall>m \<in> set [0..59]. py_round (fmul (truediv m 60) 4) = round_half_even (of_int m / 60 * 4)"
  unfolding minutes_upto
  apply simp
  apply (simp add: float_eval)
  done

lemma tenth_hour_steps:
  "\<forall>m \<in> set [0..59].
     \<bar>of_int (round_half_even (truediv m 60 * 10)) / 10 - of_int m / 60 :: rat\<bar> \<le> 1 / 20"
  unfolding minutes_upto
  apply simp
  apply (simp add: float_eval)
  done

lemma quarters_exact:
  "\<forall>j \<in> set [0..96]. float_of (of_int j / 4) = of_int j / 4"
  unfolding quarters_upto
  apply simp
  apply (simp add: float_eval)
  done


lemma half_steps_range:
  "\<forall>m \<in> set [0..59]. 0 \<le> round_half_even (of_int m / 60 * 2) \<and> round_half_even (of_int m / 60 * 2) \<le> 2"
  unfolding minutes_upto
  apply simp
  apply (simp add: float_eval)
  done

lemma quarter_steps_range:
  "\<forall>m \<in> set [0..59]. 0 \<le> round_half_even (of_int m / 60 * 4) \<and> round_half_even (of_int m / 60 * 4) \<le> 4"
  unfolding minutes_upto
  apply simp
  apply (simp add: float_eval)
  done

lemma quarter_exact:
  assumes "0 \<le> j" "j \<le> 96"
  shows "float_of (of_int j / 4) = of_int j / 4"
proof -
  from assms have "j \<in> set [0..96]" by simp
  with quarters_exact show ?thesis by blast
qed

lemma fadd_quarter:
  assumes "0 \<le> h" "h \<le> 23" "0 \<le> k" "k \<le> 4"
  shows "fadd (of_int h) (truediv k 4) = of_int h + of_int k / 4"
proof -
  have s: "truediv k 4 = of_int k / 4"
    using quarter_exact[of k] assms by (simp add: truediv_def)
  have "(of_int h :: rat) + of_int k / 4 = of_int (4 * h + k) / 4" by simp
  moreover have "float_of (of_int (4 * h + k) / 4) = of_int (4 * h + k) / 4"
    by (rule quarter_exact) (use assms in auto)
  ultimately show ?thesis by (simp only: fadd_def s)
qed

lemma fadd_half:
  assumes "0 \<le> h" "h \<le> 23" "0 \<le> k" "k \<le> 2"
  shows "fadd (of_int h) (truediv k 2) = of_int h + of_int k / 2"
proof -
  have "(of_int k :: rat) / 2 = of_int (2 * k) / 4" by simp
  then have s: "truediv k 2 = of_int k / 2"
    using quarter_exact[of "2 * k"] assms by (simp add: truediv_def)
  have "(of_int h :: rat) + of_int k / 2 = of_int (4 * h + 2 * k) / 4" by simp
  moreover have "float_of (of_int (4 * h + 2 * k) / 4) = of_int (4 * h + 2 * k) / 4"
    by (rule quarter_exact) (use assms in auto)
  ultimately show ?thesis by (simp only: fadd_def s)
qed

section \<open>The claims about the parsers\<close>

text \<open>
  Claim C1. A line in which the leading timestamp or the suffix
  \<^verbatim>\<open><repeat> time(s) <category>\<close> is absent should give no record and no error. The
  function returns \<^verbatim>\<open>None\<close> only when the timestamp is absent. On a line whose
  timestamp parses and whose suffix does not match, \<^verbatim>\<open>matched\<close> is \<^verbatim>\<open>None\<close> and the
  subscript \<^verbatim>\<open>matched['Repeat']\<close> raises \<^verbatim>\<open>TypeError\<close>: the function has a guard for the
  timestamp and none for the second match.
\<close>

theorem parse_log_line_suffix_absent_raises:
  "\<forall>U. parse_log_line U (str ''2021-05-01*14:30 nothing here'') = Inl TypeError"
proof
  fix U
  show "parse_log_line U (str ''2021-05-01*14:30 nothing here'') = Inl TypeError"
    by code_simp
qed

text \<open>
  Claim C2. The line \<^verbatim>\<open>2021-05-01*14:30 3 times oral (partner)\<close> parses to one record
  with the time stamp (2021, 5, 1, 14, 30, 0), the repeat count 3 and the category
  \<^verbatim>\<open>oral (partner)\<close>, the qualifier in parentheses included.
\<close>

theorem parse_log_line_example:
  "\<forall>U. parse_log_line U (str ''2021-05-01*14:30 3 times oral (partner)'') =
     Inr (Some \<lparr>TimeStamp = \<lparr>dt_year = 2021, dt_month = 5, dt_day = 1,
                                 dt_hour = 14, dt_minute = 30, dt_second = 0\<rparr>,
                Repeat = 3, Kind = Some (str ''oral (partner)'')\<rparr>)"
proof
  fix U
  show "parse_log_line U (str ''2021-05-01*14:30 3 times oral (partner)'') =
     Inr (Some \<lparr>TimeStamp = \<lparr>dt_year = 2021, dt_month = 5, dt_day = 1,
                                 dt_hour = 14, dt_minute = 30, dt_second = 0\<rparr>,
                Repeat = 3, Kind = Some (str ''oral (partner)'')\<rparr>)"
    by code_simp
qed

text \<open>
  Claim C3, as amended. Take a text written under either pattern without the seconds:
  a year, a month, a day, an hour and the minutes, each a text that its pattern
  matches, with the separators of the pattern between them, followed by anything that
  does not begin with a colon and seconds. Then \<^verbatim>\<open>parse_time_str\<close> returns the
  \<^verbatim>\<open>TimeStamp\<close> whose fields \<^verbatim>\<open>Year\<close>, \<^verbatim>\<open>Month\<close>, \<^verbatim>\<open>Day\<close>, \<^verbatim>\<open>Hour\<close> and \<^verbatim>\<open>Minute\<close> hold
  exactly these texts and whose field \<^verbatim>\<open>Second\<close> is \<^verbatim>\<open>None\<close>. The conversion
  \<^verbatim>\<open>_datetime\<close> turns the five texts into numbers and passes 0 for the missing
  seconds, so that every \<^verbatim>\<open>datetime\<close> built from it has the second 0.
\<close>

theorem parse_time_str_second_omitted:
  assumes "re_fullmatch U Regex_Year y" and "re_fullmatch U Regex_Month m"
    and "re_fullmatch U Regex_Day d" and "re_fullmatch U Regex_Hour h"
    and "re_fullmatch U Regex_Minute mi"
    and "re_match U (Seq (Lit CHR '':'') Regex_Second) rest = None"
  shows "parse_time_str U (y @ str ''-'' @ m @ str ''-'' @ d @ str ''*'' @ h @ str '':'' @ mi @ rest) =
           Some \<lparr>Year = Some y, Month = Some m, Day = Some d, Hour = Some h,
                 Minute = Some mi, Second = None\<rparr> \<and>
         parse_time_str U (d @ str ''/'' @ m @ str ''/'' @ y @ str '' '' @ h @ str '':'' @ mi @ rest) =
           Some \<lparr>Year = Some y, Month = Some m, Day = Some d, Hour = Some h,
                 Minute = Some mi, Second = None\<rparr> \<and>
         (\<exists>yn mn dn hn min. int_of_str U y = Inr yn \<and> int_of_str U m = Inr mn \<and>
             int_of_str U d = Inr dn \<and> int_of_str U h = Inr hn \<and> int_of_str U mi = Inr min \<and>
             TimeStamp_datetime U \<lparr>Year = Some y, Month = Some m, Day = Some d, Hour = Some h,
                 Minute = Some mi, Second = None\<rparr> = datetime_new yn mn dn hn min 0) \<and>
         (\<forall>dt. TimeStamp_datetime U \<lparr>Year = Some y, Month = Some m, Day = Some d, Hour = Some h,
                 Minute = Some mi, Second = None\<rparr> = Inr dt \<longrightarrow> dt_second dt = 0)"
proof (intro conjI allI impI)
  show "parse_time_str U (y @ str ''-'' @ m @ str ''-'' @ d @ str ''*'' @ h @ str '':'' @ mi @ rest) =
           Some \<lparr>Year = Some y, Month = Some m, Day = Some d, Hour = Some h,
                 Minute = Some mi, Second = None\<rparr>"
    using dash_parse[OF assms] by (simp add: str_def)
  show "parse_time_str U (d @ str ''/'' @ m @ str ''/'' @ y @ str '' '' @ h @ str '':'' @ mi @ rest) =
           Some \<lparr>Year = Some y, Month = Some m, Day = Some d, Hour = Some h,
                 Minute = Some mi, Second = None\<rparr>"
    using slash_parse[OF assms] by (simp add: str_def)
  have dgs: "list_all (dg U) y" "list_all (dg U) m" "list_all (dg U) d" "list_all (dg U) h"
    "list_all (dg U) mi"
    using fullmatch_year(2)[OF assms(1)] fullmatch_month(2)[OF assms(2)]
      fullmatch_day(2)[OF assms(3)] fullmatch_hour(2)[OF assms(4)]
      fullmatch_minute(2)[OF assms(5)] by simp_all
  have ne: "y \<noteq> []" "m \<noteq> []" "d \<noteq> []" "h \<noteq> []" "mi \<noteq> []"
    using fullmatch_year(3)[OF assms(1)] fullmatch_month(3)[OF assms(2)]
      fullmatch_day(3)[OF assms(3)] fullmatch_minute(3)[OF assms(5)]
      hour_inv[of "[]" _ U h "[]"] re_fullmatchD[OF assms(4)] by auto
  show "\<exists>yn mn dn hn min. int_of_str U y = Inr yn \<and> int_of_str U m = Inr mn \<and>
             int_of_str U d = Inr dn \<and> int_of_str U h = Inr hn \<and> int_of_str U mi = Inr min \<and>
             TimeStamp_datetime U \<lparr>Year = Some y, Month = Some m, Day = Some d, Hour = Some h,
                 Minute = Some mi, Second = None\<rparr> = datetime_new yn mn dn hn min 0"
    using dgs ne by (simp add: int_of_str_digits TimeStamp_datetime_def int_or_0_def)
next
  fix dt
  assume "TimeStamp_datetime U \<lparr>Year = Some y, Month = Some m, Day = Some d, Hour = Some h,
                 Minute = Some mi, Second = None\<rparr> = Inr dt"
  then show "dt_second dt = 0" by (rule datetime_second_default) simp
qed

theorem parse_time_str_second_omitted_witness:
  "\<forall>U. re_fullmatch U Regex_Year (str ''2021'') \<and> re_fullmatch U Regex_Month (str ''05'') \<and>
     re_fullmatch U Regex_Day (str ''01'') \<and> re_fullmatch U Regex_Hour (str ''14'') \<and>
     re_fullmatch U Regex_Minute (str ''30'') \<and>
     re_match U (Seq (Lit CHR '':'') Regex_Second) (str '' 3 times oral'') = None \<and>
     parse_time_str U (str ''2021-05-01*14:30 3 times oral'') =
       Some \<lparr>Year = Some (str ''2021''), Month = Some (str ''05''), Day = Some (str ''01''),
             Hour = Some (str ''14''), Minute = Some (str ''30''), Second = None\<rparr> \<and>
     parse_time_str U (str ''01/05/2021 14:30 3 times oral'') =
       Some \<lparr>Year = Some (str ''2021''), Month = Some (str ''05''), Day = Some (str ''01''),
             Hour = Some (str ''14''), Minute = Some (str ''30''), Second = None\<rparr> \<and>
     TimeStamp_datetime U
        \<lparr>Year = Some (str ''2021''), Month = Some (str ''05''), Day = Some (str ''01''),
             Hour = Some (str ''14''), Minute = Some (str ''30''), Second = None\<rparr> =
       Inr \<lparr>dt_year = 2021, dt_month = 5, dt_day = 1, dt_hour = 14, dt_minute = 30,
            dt_second = 0\<rparr>"
proof
  fix U
  have y: "re_fullmatch U Regex_Year (str ''2021'')" by code_simp
  have m: "re_fullmatch U Regex_Month (str ''05'')" by code_simp
  have d: "re_fullmatch U Regex_Day (str ''01'')" by code_simp
  have h: "re_fullmatch U Regex_Hour (str ''14'')" by code_simp
  have mi: "re_fullmatch U Regex_Minute (str ''30'')" by code_simp
  have r: "re_match U (Seq (Lit CHR '':'') Regex_Second) (str '' 3 times oral'') = None"
    by code_simp
  have dt: "TimeStamp_datetime U
        \<lparr>Year = Some (str ''2021''), Month = Some (str ''05''), Day = Some (str ''01''),
             Hour = Some (str ''14''), Minute = Some (str ''30''), Second = None\<rparr> =
       Inr \<lparr>dt_year = 2021, dt_month = 5, dt_day = 1, dt_hour = 14, dt_minute = 30,
            dt_second = 0\<rparr>" by code_simp
  from parse_time_str_second_omitted[OF y m d h mi r] have
    "parse_time_str U (str ''2021'' @ str ''-'' @ str ''05'' @ str ''-'' @ str ''01'' @ str ''*'' @
        str ''14'' @ str '':'' @ str ''30'' @ str '' 3 times oral'') =
       Some \<lparr>Year = Some (str ''2021''), Month = Some (str ''05''), Day = Some (str ''01''),
             Hour = Some (str ''14''), Minute = Some (str ''30''), Second = None\<rparr>"
    "parse_time_str U (str ''01'' @ str ''/'' @ str ''05'' @ str ''/'' @ str ''2021'' @ str '' '' @
        str ''14'' @ str '':'' @ str ''30'' @ str '' 3 times oral'') =
       Some \<lparr>Year = Some (str ''2021''), Month = Some (str ''05''), Day = Some (str ''01''),
             Hour = Some (str ''14''), Minute = Some (str ''30''), Second = None\<rparr>"
    by blast+
  then have
    "parse_time_str U (str ''2021-05-01*14:30 3 times oral'') =
       Some \<lparr>Year = Some (str ''2021''), Month = Some (str ''05''), Day = Some (str ''01''),
             Hour = Some (str ''14''), Minute = Some (str ''30''), Second = None\<rparr>"
    "parse_time_str U (str ''01/05/2021 14:30 3 times oral'') =
       Some \<lparr>Year = Some (str ''2021''), Month = Some (str ''05''), Day = Some (str ''01''),
             Hour = Some (str ''14''), Minute = Some (str ''30''), Second = None\<rparr>"
    by (simp_all add: str_def)
  with y m d h mi r dt show
    "re_fullmatch U Regex_Year (str ''2021'') \<and> re_fullmatch U Regex_Month (str ''05'') \<and>
     re_fullmatch U Regex_Day (str ''01'') \<and> re_fullmatch U Regex_Hour (str ''14'') \<and>
     re_fullmatch U Regex_Minute (str ''30'') \<and>
     re_match U (Seq (Lit CHR '':'') Regex_Second) (str '' 3 times oral'') = None \<and>
     parse_time_str U (str ''2021-05-01*14:30 3 times oral'') =
       Some \<lparr>Year = Some (str ''2021''), Month = Some (str ''05''), Day = Some (str ''01''),
             Hour = Some (str ''14''), Minute = Some (str ''30''), Second = None\<rparr> \<and>
     parse_time_str U (str ''01/05/2021 14:30 3 times oral'') =
       Some \<lparr>Year = Some (str ''2021''), Month = Some (str ''05''), Day = Some (str ''01''),
             Hour = Some (str ''14''), Minute = Some (str ''30''), Second = None\<rparr> \<and>
     TimeStamp_datetime U
        \<lparr>Year = Some (str ''2021''), Month = Some (str ''05''), Day = Some (str ''01''),
             Hour = Some (str ''14''), Minute = Some (str ''30''), Second = None\<rparr> =
       Inr \<lparr>dt_year = 2021, dt_month = 5, dt_day = 1, dt_hour = 14, dt_minute = 30,
            dt_second = 0\<rparr>"
    by (intro conjI)
qed

text \<open>
  The claim as it was stated, that the field \<^verbatim>\<open>Second\<close> of the returned \<^verbatim>\<open>TimeStamp\<close>
  equals 0, fails: the field is \<^verbatim>\<open>None\<close>.
\<close>

theorem parse_time_str_second_is_None:
  "\<forall>U. map_option Second (parse_time_str U (str ''2021-05-01*14:30'')) = Some None"
proof
  fix U
  show "map_option Second (parse_time_str U (str ''2021-05-01*14:30'')) = Some None"
    by code_simp
qed
text \<open>
  Claim C4, as amended. A year written with two digits is not expanded to four:
  under either pattern \<^verbatim>\<open>parse_time_str\<close> returns the two digits as written, and
  \<^verbatim>\<open>_datetime\<close> turns them into the number they denote, ten times the first digit plus
  the second, a year from 1 to 99 (the constructor rejects 0). The year is the same
  under both patterns for the same date.
\<close>

theorem two_digit_year_both_grammars:
  assumes len: "length y = 2" "length m = 2" "length d = 2"
    and A: "parse_time_str U (y @ str ''-'' @ m @ str ''-'' @ d @ str ''*'' @ t) = Some tsA"
    and B: "parse_time_str U (d @ str ''/'' @ m @ str ''/'' @ y @ str '' '' @ t) = Some tsB"
  shows "Year tsA = Some y \<and> Year tsB = Some y \<and>
         (\<forall>dtA dtB. TimeStamp_datetime U tsA = Inr dtA \<longrightarrow> TimeStamp_datetime U tsB = Inr dtB \<longrightarrow>
            dt_year dtA = dt_year dtB \<and> 1 \<le> dt_year dtA \<and> dt_year dtA \<le> 99 \<and>
            dt_year dtA = 10 * digit_val U (y ! 0) + digit_val U (y ! 1))"
proof -
  from parsed_fields[OF A] obtain ya ma da where
    a: "Year tsA = Some ya" "list_all (dg U) ya" "length ya = 2 \<or> length ya = 4"
       "length da = 2" "length ma = 2" "list_all (dg U) da"
       "(\<exists>tl. y @ str ''-'' @ m @ str ''-'' @ d @ str ''*'' @ t = ya @ 45 # ma @ 45 # da @ 42 # tl) \<or>
        (\<exists>tl. y @ str ''-'' @ m @ str ''-'' @ d @ str ''*'' @ t = da @ 47 # ma @ 47 # ya @ 32 # tl)"
    by (metis TimeStamp.select_convs(1))
  from a(7) have ya: "ya = y"
  proof
    assume "\<exists>tl. y @ str ''-'' @ m @ str ''-'' @ d @ str ''*'' @ t = ya @ 45 # ma @ 45 # da @ 42 # tl"
    then obtain tl where "y @ 45 # m @ 45 # d @ 42 # t = ya @ 45 # ma @ 45 # da @ 42 # tl"
      by (auto simp: str_def)
    from year_prefix_two[OF len(1) a(2,3) _ this] show ?thesis by simp
  next
    assume "\<exists>tl. y @ str ''-'' @ m @ str ''-'' @ d @ str ''*'' @ t = da @ 47 # ma @ 47 # ya @ 32 # tl"
    then obtain tl where "y @ 45 # m @ 45 # d @ 42 # t = da @ 47 # ma @ 47 # ya @ 32 # tl"
      by (auto simp: str_def)
    with len(1) a(4) show ?thesis by auto
  qed
  from parsed_fields[OF B] obtain yb mb db where
    b: "Year tsB = Some yb" "list_all (dg U) yb" "length yb = 2 \<or> length yb = 4"
       "length db = 2" "length mb = 2" "list_all (dg U) db"
       "(\<exists>tl. d @ str ''/'' @ m @ str ''/'' @ y @ str '' '' @ t = yb @ 45 # mb @ 45 # db @ 42 # tl) \<or>
        (\<exists>tl. d @ str ''/'' @ m @ str ''/'' @ y @ str '' '' @ t = db @ 47 # mb @ 47 # yb @ 32 # tl)"
    by (metis TimeStamp.select_convs(1))
  from b(7) have yb: "yb = y"
  proof
    assume "\<exists>tl. d @ str ''/'' @ m @ str ''/'' @ y @ str '' '' @ t = yb @ 45 # mb @ 45 # db @ 42 # tl"
    then obtain tl where e: "d @ 47 # m @ 47 # y @ 32 # t = yb @ 45 # mb @ 45 # db @ 42 # tl"
      by (auto simp: str_def)
    from year_prefix_two[OF len(3) b(2,3) _ e] have "yb = d" by simp
    with e show ?thesis by simp
  next
    assume "\<exists>tl. d @ str ''/'' @ m @ str ''/'' @ y @ str '' '' @ t = db @ 47 # mb @ 47 # yb @ 32 # tl"
    then obtain tl where e: "d @ 47 # m @ 47 # y @ 32 # t = db @ 47 # mb @ 47 # yb @ 32 # tl"
      by (auto simp: str_def)
    with len(3) b(4) have "m @ 47 # y @ 32 # t = mb @ 47 # yb @ 32 # tl" by simp
    with len(2) b(5) have "y @ 32 # t = yb @ 32 # tl" by simp
    from year_prefix_two[OF len(1) b(2,3) _ this] show ?thesis by simp
  qed
  have dy: "list_all (dg U) y" "y \<noteq> []" using a(2) ya len by auto
  show ?thesis
  proof (intro conjI allI impI)
    fix dtA dtB assume dA: "TimeStamp_datetime U tsA = Inr dtA" and dB: "TimeStamp_datetime U tsB = Inr dtB"
    have vA: "dt_year dtA = foldl (\<lambda>acc c. 10 * acc + digit_val U c) 0 y"
      using datetime_year_value[OF dA _ dy] a(1) ya by simp
    have vB: "dt_year dtB = foldl (\<lambda>acc c. 10 * acc + digit_val U c) 0 y"
      using datetime_year_value[OF dB _ dy] b(1) yb by simp
    show "dt_year dtA = dt_year dtB" using vA vB by simp
    show "dt_year dtA \<le> 99" using vA two_digits_value[OF dy(1) len(1)] by simp
    show "dt_year dtA = 10 * digit_val U (y ! 0) + digit_val U (y ! 1)"
      using vA two_digits_value[OF dy(1) len(1)] by simp
    show "1 \<le> dt_year dtA" using dA
      by (auto simp: TimeStamp_datetime_def datetime_new_def split: sum.splits if_splits)
  qed (use a(1) b(1) ya yb in simp_all)
qed

theorem two_digit_year_both_grammars_witness:
  "\<forall>U. length (str ''21'') = 2 \<and> length (str ''05'') = 2 \<and> length (str ''01'') = 2 \<and>
   map_option Year (parse_time_str U
       (str ''21'' @ str ''-'' @ str ''05'' @ str ''-'' @ str ''01'' @ str ''*'' @ str ''14:30''))
     = Some (Some (str ''21'')) \<and>
   map_option Year (parse_time_str U
       (str ''01'' @ str ''/'' @ str ''05'' @ str ''/'' @ str ''21'' @ str '' '' @ str ''14:30''))
     = Some (Some (str ''21'')) \<and>
   map_option (TimeStamp_datetime U)
     (parse_time_str U
       (str ''01'' @ str ''/'' @ str ''05'' @ str ''/'' @ str ''21'' @ str '' '' @ str ''14:30'')) =
     Some (Inr \<lparr>dt_year = 21, dt_month = 5, dt_day = 1, dt_hour = 14, dt_minute = 30,
                dt_second = 0\<rparr>) \<and>
   10 * digit_val U (str ''21'' ! 0) + digit_val U (str ''21'' ! 1) = 21"
proof
  fix U
  let ?ts = "\<lparr>Year = Some (str ''21''), Month = Some (str ''05''), Day = Some (str ''01''),
           Hour = Some (str ''14''), Minute = Some (str ''30''), Second = None\<rparr>"
  let ?dt = "\<lparr>dt_year = 21, dt_month = 5, dt_day = 1, dt_hour = 14, dt_minute = 30,
          dt_second = 0\<rparr>"
  have a: "parse_time_str U
       (str ''21'' @ str ''-'' @ str ''05'' @ str ''-'' @ str ''01'' @ str ''*'' @ str ''14:30'') = Some ?ts"
    by code_simp
  have b: "parse_time_str U
       (str ''01'' @ str ''/'' @ str ''05'' @ str ''/'' @ str ''21'' @ str '' '' @ str ''14:30'') = Some ?ts"
    by code_simp
  have d: "TimeStamp_datetime U ?ts = Inr ?dt" by code_simp
  have l: "length (str ''21'') = 2" "length (str ''05'') = 2" "length (str ''01'') = 2"
    by (simp_all add: str_def)
  from two_digit_year_both_grammars[OF l a b] d
  have v: "dt_year ?dt = 10 * digit_val U (str ''21'' ! 0) + digit_val U (str ''21'' ! 1)"
    by blast
  from l a b d v show "length (str ''21'') = 2 \<and> length (str ''05'') = 2 \<and> length (str ''01'') = 2 \<and>
   map_option Year (parse_time_str U
       (str ''21'' @ str ''-'' @ str ''05'' @ str ''-'' @ str ''01'' @ str ''*'' @ str ''14:30''))
     = Some (Some (str ''21'')) \<and>
   map_option Year (parse_time_str U
       (str ''01'' @ str ''/'' @ str ''05'' @ str ''/'' @ str ''21'' @ str '' '' @ str ''14:30''))
     = Some (Some (str ''21'')) \<and>
   map_option (TimeStamp_datetime U)
     (parse_time_str U
       (str ''01'' @ str ''/'' @ str ''05'' @ str ''/'' @ str ''21'' @ str '' '' @ str ''14:30'')) =
     Some (Inr \<lparr>dt_year = 21, dt_month = 5, dt_day = 1, dt_hour = 14, dt_minute = 30,
                dt_second = 0\<rparr>) \<and>
   10 * digit_val U (str ''21'' ! 0) + digit_val U (str ''21'' ! 1) = 21"
    by simp
qed

text \<open>
  The claim as it was stated, that a two-digit year becomes a four-digit year in the
  1900s or 2000s, fails: the year of \<^verbatim>\<open>21-05-01*14:30\<close> is 21.
\<close>

theorem two_digit_year_not_expanded:
  "\<forall>U. map_option (TimeStamp_datetime U) (parse_time_str U (str ''21-05-01*14:30'')) =
     Some (Inr \<lparr>dt_year = 21, dt_month = 5, dt_day = 1, dt_hour = 14, dt_minute = 30,
                dt_second = 0\<rparr>)"
proof
  fix U
  show "map_option (TimeStamp_datetime U) (parse_time_str U (str ''21-05-01*14:30'')) =
     Some (Inr \<lparr>dt_year = 21, dt_month = 5, dt_day = 1, dt_hour = 14, dt_minute = 30,
                dt_second = 0\<rparr>)"
    by code_simp
qed
text \<open>
  Claim C5, as amended. In every record that \<^verbatim>\<open>parse_log_line\<close> returns, the repeat
  count is the value of the single digit written before \<^verbatim>\<open>time\<close> or \<^verbatim>\<open>times\<close>, a
  number from 0 to 9. The digit is found in the line: the line is a nonempty part
  \<open>pre\<close> without a line feed, then a space, the digit \<open>c\<close>, \<^verbatim>\<open> time\<close> and the rest,
  where what follows \<open>pre\<close> matches \<^verbatim>\<open> <repeat> time(s) <category>\<close>; and since \<^verbatim>\<open>.+\<close>
  is greedy, \<open>pre\<close> is the longest part of the line that can be followed in this way,
  which fixes the digit.
\<close>

theorem parse_log_line_repeat_digit:
  assumes "parse_log_line U line = Inr (Some rec)"
  shows "\<exists>pre c post.
           line = pre @ str '' '' @ [c] @ str '' time'' @ post \<and>
           pre \<noteq> [] \<and> 10 \<notin> set pre \<and>
           re_match U log_suffix (str '' '' @ [c] @ str '' time'' @ post) \<noteq> None \<and>
           (\<forall>pre' rest'. line = pre' @ rest' \<and> pre' \<noteq> [] \<and> 10 \<notin> set pre' \<and>
               re_match U log_suffix rest' \<noteq> None \<longrightarrow> length pre' \<le> length pre) \<and>
           in_class U Digit c \<and> Repeat rec = digit_val U c \<and>
           0 \<le> Repeat rec \<and> Repeat rec \<le> 9"
proof -
  from assms obtain groups r where
    g: "re_match U log_regex line = Some groups" and r: "map_of groups ''Repeat'' = Some r"
    and n: "int_of_str U r = Inr (Repeat rec)"
    by (auto simp: parse_log_line_def Let_def split: option.splits sum.splits)
  from log_regex_first[OF g] obtain pre rest where
    p: "line = pre @ rest" "pre \<noteq> []" "10 \<notin> set pre" "re_match U log_suffix rest = Some groups"
       "\<forall>pre' rest'. line = pre' @ rest' \<and> pre' \<noteq> [] \<and> 10 \<notin> set pre' \<and>
               re_match U log_suffix rest' \<noteq> None \<longrightarrow> length pre' \<le> length pre"
    by blast
  from re_match_SomeD[OF p(4)] obtain r0 where "(r0, groups) \<in> set (ms U log_suffix (rest, []))" ..
  from log_suffix_inv[OF this] obtain c w post where
    c: "rest = 32 # c # 32 # 116 # 105 # 109 # 101 # post" "dg U c"
       "groups = [(''Kind'', w), (''Repeat'', [c])]"
    by blast
  have rest: "rest = str '' '' @ [c] @ str '' time'' @ post" using c(1) by (simp add: str_def)
  from c(3) r have "r = [c]" by simp
  with n c(2) have v: "Repeat rec = digit_val U c" by (simp add: int_of_str_digits)
  from dg_digit_val[OF c(2)] v have b: "0 \<le> Repeat rec" "Repeat rec \<le> 9" by simp_all
  from p(4) have m: "re_match U log_suffix rest \<noteq> None" by simp
  from c(2) have d: "in_class U Digit c" by (simp only: dg_def)
  show ?thesis
    apply (rule exI[of _ pre], rule exI[of _ c], rule exI[of _ post])
    using p(1,2,3,5) m d v b unfolding rest by (intro conjI) simp_all
qed

theorem parse_log_line_repeat_digit_witness:
  "\<forall>U. parse_log_line U (str ''01/05/2021 14:30:05 2 times x 1 time kissing'') =
          Inr (Some \<lparr>TimeStamp = \<lparr>dt_year = 2021, dt_month = 5, dt_day = 1,
                                      dt_hour = 14, dt_minute = 30, dt_second = 5\<rparr>,
                     Repeat = 1, Kind = Some (str ''kissing'')\<rparr>) \<and>
        (\<exists>pre c post.
           str ''01/05/2021 14:30:05 2 times x 1 time kissing'' =
             pre @ str '' '' @ [c] @ str '' time'' @ post \<and>
           pre \<noteq> [] \<and> 10 \<notin> set pre \<and>
           re_match U log_suffix (str '' '' @ [c] @ str '' time'' @ post) \<noteq> None \<and>
           length (str ''01/05/2021 14:30:05 2 times x'') \<le> length pre \<and>
           in_class U Digit c \<and> 1 = digit_val U c)"
proof
  fix U
  let ?line = "str ''01/05/2021 14:30:05 2 times x 1 time kissing''"
  let ?r = "\<lparr>TimeStamp = \<lparr>dt_year = 2021, dt_month = 5, dt_day = 1,
                                 dt_hour = 14, dt_minute = 30, dt_second = 5\<rparr>,
                Repeat = 1, Kind = Some (str ''kissing'')\<rparr>"
  have p: "parse_log_line U ?line = Inr (Some ?r)" by code_simp
  have s: "?line = str ''01/05/2021 14:30:05 2 times x'' @ str '' 1 time kissing''"
    by (simp add: str_def)
  have n: "str ''01/05/2021 14:30:05 2 times x'' \<noteq> []"
    "10 \<notin> set (str ''01/05/2021 14:30:05 2 times x'')"
    by (simp_all add: str_def)
  have m: "re_match U log_suffix (str '' 1 time kissing'') \<noteq> None" by code_simp
  from parse_log_line_repeat_digit[OF p] obtain pre c post where
    c: "?line = pre @ str '' '' @ [c] @ str '' time'' @ post" "pre \<noteq> []" "10 \<notin> set pre"
       "re_match U log_suffix (str '' '' @ [c] @ str '' time'' @ post) \<noteq> None"
       "\<forall>pre' rest'. ?line = pre' @ rest' \<and> pre' \<noteq> [] \<and> 10 \<notin> set pre' \<and>
               re_match U log_suffix rest' \<noteq> None \<longrightarrow> length pre' \<le> length pre"
       "in_class U Digit c" "Repeat ?r = digit_val U c"
    by blast
  from c(5) s n m have "length (str ''01/05/2021 14:30:05 2 times x'') \<le> length pre" by blast
  with c(1-4,6,7) have "\<exists>pre c post.
           ?line = pre @ str '' '' @ [c] @ str '' time'' @ post \<and>
           pre \<noteq> [] \<and> 10 \<notin> set pre \<and>
           re_match U log_suffix (str '' '' @ [c] @ str '' time'' @ post) \<noteq> None \<and>
           length (str ''01/05/2021 14:30:05 2 times x'') \<le> length pre \<and>
           in_class U Digit c \<and> 1 = digit_val U c"
    by (intro exI[of _ pre] exI[of _ c] exI[of _ post]) simp
  with p show "parse_log_line U ?line = Inr (Some ?r) \<and>
        (\<exists>pre c post.
           ?line = pre @ str '' '' @ [c] @ str '' time'' @ post \<and>
           pre \<noteq> [] \<and> 10 \<notin> set pre \<and>
           re_match U log_suffix (str '' '' @ [c] @ str '' time'' @ post) \<noteq> None \<and>
           length (str ''01/05/2021 14:30:05 2 times x'') \<le> length pre \<and>
           in_class U Digit c \<and> 1 = digit_val U c)"
    by (intro conjI)
qed

text \<open>
  The claim as it was stated, that the repeat count is at least 1, fails: the pattern
  \<^verbatim>\<open>\d\<close> takes the digit 0 as well.
\<close>

theorem parse_log_line_repeat_zero:
  "\<forall>U. parse_log_line U (str ''2021-05-01*14:30 0 times oral'') =
     Inr (Some \<lparr>TimeStamp = \<lparr>dt_year = 2021, dt_month = 5, dt_day = 1,
                                 dt_hour = 14, dt_minute = 30, dt_second = 0\<rparr>,
                Repeat = 0, Kind = Some (str ''oral'')\<rparr>)"
proof
  fix U
  show "parse_log_line U (str ''2021-05-01*14:30 0 times oral'') =
     Inr (Some \<lparr>TimeStamp = \<lparr>dt_year = 2021, dt_month = 5, dt_day = 1,
                                 dt_hour = 14, dt_minute = 30, dt_second = 0\<rparr>,
                Repeat = 0, Kind = Some (str ''oral'')\<rparr>)"
    by code_simp
qed
text \<open>
  Claim C6, as amended. The pattern \<^verbatim>\<open>Month\<close> matches exactly the texts \<^verbatim>\<open>10\<close>, \<^verbatim>\<open>11\<close>,
  \<^verbatim>\<open>12\<close> and \<^verbatim>\<open>0\<close> followed by one decimal digit (\<^verbatim>\<open>00\<close> included, and, since \<^verbatim>\<open>\d\<close> is
  the Unicode class, \<^verbatim>\<open>0\<close> followed by a decimal digit of another script). The month
  of every \<^verbatim>\<open>TimeStamp\<close> that \<^verbatim>\<open>parse_time_str\<close> returns is one of these texts; each of
  them is accepted under both patterns, between any year, day and time that match;
  and \<^verbatim>\<open>int\<close> reads it as a number from 0 to 12. A month that denotes 0 is refused
  only later: every field of the \<^verbatim>\<open>TimeStamp\<close> converts, and the \<^verbatim>\<open>datetime\<close>
  constructor raises \<^verbatim>\<open>ValueError\<close>.
\<close>

theorem month_field_accepted:
  "(\<forall>m. re_fullmatch U Regex_Month m \<longleftrightarrow> month_text U m) \<and>
   (\<forall>s ts. parse_time_str U s = Some ts \<longrightarrow> (\<exists>m. Month ts = Some m \<and> month_text U m)) \<and>
   (\<forall>m y d h mi rest.
       month_text U m \<and> re_fullmatch U Regex_Year y \<and> re_fullmatch U Regex_Day d \<and>
       re_fullmatch U Regex_Hour h \<and> re_fullmatch U Regex_Minute mi \<and>
       re_match U (Seq (Lit CHR '':'') Regex_Second) rest = None \<longrightarrow>
       map_option Month
         (parse_time_str U (y @ str ''-'' @ m @ str ''-'' @ d @ str ''*'' @ h @ str '':'' @ mi @ rest))
         = Some (Some m) \<and>
       map_option Month
         (parse_time_str U (d @ str ''/'' @ m @ str ''/'' @ y @ str '' '' @ h @ str '':'' @ mi @ rest))
         = Some (Some m)) \<and>
   (\<forall>m. month_text U m \<longrightarrow> (\<exists>n. int_of_str U m = Inr n \<and> 0 \<le> n \<and> n \<le> 12)) \<and>
   (\<forall>s ts. parse_time_str U s = Some ts \<and> int_or_0 U (Month ts) = Inr 0 \<longrightarrow>
       (\<exists>y d h mi sec. int_or_0 U (Year ts) = Inr y \<and>
           int_or_0 U (Day ts) = Inr d \<and> int_or_0 U (Hour ts) = Inr h \<and>
           int_or_0 U (Minute ts) = Inr mi \<and> int_or_0 U (Second ts) = Inr sec \<and>
           TimeStamp_datetime U ts = datetime_new y 0 d h mi sec \<and>
           datetime_new y 0 d h mi sec = Inl ValueError))"
proof (intro conjI allI impI)
  fix m show "re_fullmatch U Regex_Month m \<longleftrightarrow> month_text U m"
    by (simp only: month_text_fullmatch)
next
  fix s ts assume "parse_time_str U s = Some ts"
  from parsed_fields[OF this] show "\<exists>m. Month ts = Some m \<and> month_text U m"
    by (metis TimeStamp.select_convs(2))
next
  fix m y d h mi rest
  assume a: "month_text U m \<and> re_fullmatch U Regex_Year y \<and> re_fullmatch U Regex_Day d \<and>
       re_fullmatch U Regex_Hour h \<and> re_fullmatch U Regex_Minute mi \<and>
       re_match U (Seq (Lit CHR '':'') Regex_Second) rest = None"
  then have m: "re_fullmatch U Regex_Month m" by (simp only: month_text_fullmatch)
  from a dash_parse[OF _ m, of y d h mi rest]
  show "map_option Month
         (parse_time_str U (y @ str ''-'' @ m @ str ''-'' @ d @ str ''*'' @ h @ str '':'' @ mi @ rest))
         = Some (Some m)"
    by (simp add: str_def)
  from a slash_parse[OF _ m, of y d h mi rest]
  show "map_option Month
         (parse_time_str U (d @ str ''/'' @ m @ str ''/'' @ y @ str '' '' @ h @ str '':'' @ mi @ rest))
         = Some (Some m)"
    by (simp add: str_def)
next
  fix m assume "month_text U m"
  then show "\<exists>n. int_of_str U m = Inr n \<and> 0 \<le> n \<and> n \<le> 12" by (rule month_text_value)
next
  fix s ts assume "parse_time_str U s = Some ts \<and> int_or_0 U (Month ts) = Inr 0"
  then show "\<exists>y d h mi sec. int_or_0 U (Year ts) = Inr y \<and>
           int_or_0 U (Day ts) = Inr d \<and> int_or_0 U (Hour ts) = Inr h \<and>
           int_or_0 U (Minute ts) = Inr mi \<and> int_or_0 U (Second ts) = Inr sec \<and>
           TimeStamp_datetime U ts = datetime_new y 0 d h mi sec \<and>
           datetime_new y 0 d h mi sec = Inl ValueError"
    using month_zero_rejected[of U s ts] by blast
qed

theorem month_field_accepted_witness:
  "month_text arabic_indic (str ''0'' @ [1635]) \<and>
   re_fullmatch arabic_indic Regex_Month (str ''0'' @ [1635]) \<and>
   re_fullmatch arabic_indic Regex_Year (str ''2021'') \<and>
   re_fullmatch arabic_indic Regex_Day (str ''01'') \<and>
   re_fullmatch arabic_indic Regex_Hour (str ''14'') \<and>
   re_fullmatch arabic_indic Regex_Minute (str ''30'') \<and>
   re_match arabic_indic (Seq (Lit CHR '':'') Regex_Second) [] = None \<and>
   parse_time_str arabic_indic (str ''2021-0'' @ [1635] @ str ''-01*14:30'') =
     Some \<lparr>Year = Some (str ''2021''), Month = Some (str ''0'' @ [1635]),
           Day = Some (str ''01''), Hour = Some (str ''14''), Minute = Some (str ''30''),
           Second = None\<rparr> \<and>
   map_option Month (parse_time_str arabic_indic (str ''01/0'' @ [1635] @ str ''/2021 14:30'')) =
     Some (Some (str ''0'' @ [1635])) \<and>
   int_of_str arabic_indic (str ''0'' @ [1635]) = Inr 3 \<and>
   parse_time_str arabic_indic (str ''2021-00-01*14:30'') =
     Some \<lparr>Year = Some (str ''2021''), Month = Some (str ''00''),
           Day = Some (str ''01''), Hour = Some (str ''14''), Minute = Some (str ''30''),
           Second = None\<rparr> \<and>
   int_or_0 arabic_indic (Some (str ''00'')) = Inr 0 \<and>
   TimeStamp_datetime arabic_indic
      \<lparr>Year = Some (str ''2021''), Month = Some (str ''00''),
           Day = Some (str ''01''), Hour = Some (str ''14''), Minute = Some (str ''30''),
           Second = None\<rparr> = Inl ValueError"
proof -
  let ?U = arabic_indic
  let ?m = "str ''0'' @ [1635]"
  let ?ts = "\<lparr>Year = Some (str ''2021''), Month = Some ?m,
           Day = Some (str ''01''), Hour = Some (str ''14''), Minute = Some (str ''30''),
           Second = None\<rparr>"
  let ?t0 = "\<lparr>Year = Some (str ''2021''), Month = Some (str ''00''),
           Day = Some (str ''01''), Hour = Some (str ''14''), Minute = Some (str ''30''),
           Second = None\<rparr>"
  note T = month_field_accepted[of ?U]
  have mt: "month_text ?U ?m" by code_simp
  from T mt have fm: "re_fullmatch ?U Regex_Month ?m" by blast
  have y: "re_fullmatch ?U Regex_Year (str ''2021'')" by code_simp
  have d: "re_fullmatch ?U Regex_Day (str ''01'')" by code_simp
  have h: "re_fullmatch ?U Regex_Hour (str ''14'')" by code_simp
  have mi: "re_fullmatch ?U Regex_Minute (str ''30'')" by code_simp
  have r: "re_match ?U (Seq (Lit CHR '':'') Regex_Second) [] = None" by code_simp
  have pa: "parse_time_str ?U (str ''2021-0'' @ [1635] @ str ''-01*14:30'') = Some ?ts"
    by code_simp
  from T have acc: "\<And>m y d h mi rest.
       month_text ?U m \<and> re_fullmatch ?U Regex_Year y \<and> re_fullmatch ?U Regex_Day d \<and>
       re_fullmatch ?U Regex_Hour h \<and> re_fullmatch ?U Regex_Minute mi \<and>
       re_match ?U (Seq (Lit CHR '':'') Regex_Second) rest = None \<Longrightarrow>
       map_option Month
         (parse_time_str ?U (d @ str ''/'' @ m @ str ''/'' @ y @ str '' '' @ h @ str '':'' @ mi @ rest))
         = Some (Some m)"
    by blast
  from acc[of ?m "str ''2021''" "str ''01''" "str ''14''" "str ''30''" "[]"] mt y d h mi r
  have pb: "map_option Month (parse_time_str ?U (str ''01/0'' @ [1635] @ str ''/2021 14:30'')) =
     Some (Some ?m)"
    by (simp add: str_def)
  have iv: "int_of_str ?U ?m = Inr 3" by code_simp
  have p0: "parse_time_str ?U (str ''2021-00-01*14:30'') = Some ?t0" by code_simp
  have i0: "int_or_0 ?U (Some (str ''00'')) = Inr 0" by code_simp
  from T have rej: "\<And>s ts. parse_time_str ?U s = Some ts \<and> int_or_0 ?U (Month ts) = Inr 0 \<Longrightarrow>
       \<exists>y d h mi sec. TimeStamp_datetime ?U ts = datetime_new y 0 d h mi sec \<and>
           datetime_new y 0 d h mi sec = Inl ValueError"
    by blast
  from rej[of "str ''2021-00-01*14:30''" ?t0] p0 i0
  have e: "TimeStamp_datetime ?U ?t0 = Inl ValueError" by auto
  from mt fm y d h mi r pa pb iv p0 i0 e show ?thesis by (intro conjI)
qed

text \<open>
  The claim as it was stated, that a month outside \<^verbatim>\<open>01\<close> to \<^verbatim>\<open>12\<close> is never
  matched, fails: the alternative \<^verbatim>\<open>0\d\<close> of the pattern takes \<^verbatim>\<open>00\<close>.
\<close>

theorem month_zero_accepted:
  "\<forall>U. map_option Month (parse_time_str U (str ''2021-00-01*14:30'')) = Some (Some (str ''00''))"
proof
  fix U
  show "map_option Month (parse_time_str U (str ''2021-00-01*14:30'')) = Some (Some (str ''00''))"
    by code_simp
qed

text \<open>
  Claim C10. \<^verbatim>\<open>parse_time_str\<close> looks at a prefix of its argument only: when a text
  matches a pattern with the seconds, the same text followed by anything gives the
  same \<^verbatim>\<open>TimeStamp\<close>. This is what lets \<^verbatim>\<open>parse_log_line\<close> pass the whole line.
\<close>

theorem parse_time_str_prefix:
  assumes "parse_time_str U s = Some ts" "Second ts \<noteq> None"
  shows "parse_time_str U (s @ t) = Some ts"
proof (cases "re_match U regex_dash s")
  case (Some e)
  with assms have ts: "ts = groupdict e" and "map_of e ''Second'' \<noteq> None"
    by (auto simp: parse_time_str_def groupdict_def)
  with Some have "re_match U regex_dash (s @ t) = Some e"
    by (intro re_match_ext) (auto intro: dash_agree)
  with ts show ?thesis by (simp add: parse_time_str_def)
next
  case None
  with assms obtain e where e: "re_match U regex_slash s = Some e" and ts: "ts = groupdict e"
    and "map_of e ''Second'' \<noteq> None"
    by (auto simp: parse_time_str_def groupdict_def split: option.splits)
  then have "re_match U regex_slash (s @ t) = Some e"
    by (intro re_match_ext) (auto intro: slash_agree)
  moreover from e have "re_match U regex_dash (s @ t) = None" by (rule dash_not_slash)
  ultimately show ?thesis using ts by (simp add: parse_time_str_def)
qed

theorem parse_time_str_prefix_witness:
  "\<forall>U. parse_time_str U (str ''2021-05-01*14:30:05'') =
     Some \<lparr>Year = Some (str ''2021''), Month = Some (str ''05''), Day = Some (str ''01''),
           Hour = Some (str ''14''), Minute = Some (str ''30''), Second = Some (str ''05'')\<rparr> \<and>
   parse_time_str U (str ''2021-05-01*14:30:05'' @ str '' 3 times oral (partner)'') =
     Some \<lparr>Year = Some (str ''2021''), Month = Some (str ''05''), Day = Some (str ''01''),
           Hour = Some (str ''14''), Minute = Some (str ''30''), Second = Some (str ''05'')\<rparr>"
proof
  fix U
  let ?ts = "\<lparr>Year = Some (str ''2021''), Month = Some (str ''05''), Day = Some (str ''01''),
           Hour = Some (str ''14''), Minute = Some (str ''30''), Second = Some (str ''05'')\<rparr>"
  have p: "parse_time_str U (str ''2021-05-01*14:30:05'') = Some ?ts" by code_simp
  have s: "Second ?ts \<noteq> None" by simp
  from parse_time_str_prefix[OF p s, of "str '' 3 times oral (partner)''"] p
  show "parse_time_str U (str ''2021-05-01*14:30:05'') = Some ?ts \<and>
   parse_time_str U (str ''2021-05-01*14:30:05'' @ str '' 3 times oral (partner)'') = Some ?ts"
    by simp
qed

section \<open>The claims about the readers and the aggregation\<close>

text \<open>
  Claim C7. For a record set of \<open>n\<close> rows and a time stamp with hour \<open>h\<close> and minute
  \<open>m\<close>, the function that \<^verbatim>\<open>time_function\<close> returns yields \<open>h\<close> plus a step that
  depends on \<open>n\<close> only through the thresholds 50, 100 and 200: \<^verbatim>\<open>round(m/60)\<close> up to
  50 rows (whole hours, also at exactly 50), \<^verbatim>\<open>round(m/60*2)/2\<close> up to 100,
  \<^verbatim>\<open>round(m/60*4)/4\<close> up to 200 and \<^verbatim>\<open>round(m/60, 1)\<close> above. In the first three
  branches the float arithmetic of the program agrees with the exact value, with
  \<^verbatim>\<open>round\<close> rounding ties to even; in the last one the step is the double nearest to
  a tenth \<open>k / 10\<close> that lies within \<open>1 / 20\<close> of \<open>m / 60\<close>, and the sum, rounded to a
  double, is within \<open>2 ^ -48\<close> of \<open>h + k / 10\<close>.
\<close>

theorem time_function_precision:
  assumes "0 \<le> dt_hour x" "dt_hour x \<le> 23" "0 \<le> dt_minute x" "dt_minute x \<le> 59"
  shows "(nrows df \<le> 50 \<longrightarrow>
            time_function df x =
              of_int (dt_hour x) + of_int (round_half_even (of_int (dt_minute x) / 60))) \<and>
         (50 < nrows df \<and> nrows df \<le> 100 \<longrightarrow>
            time_function df x =
              of_int (dt_hour x) + of_int (round_half_even (of_int (dt_minute x) / 60 * 2)) / 2) \<and>
         (100 < nrows df \<and> nrows df \<le> 200 \<longrightarrow>
            time_function df x =
              of_int (dt_hour x) + of_int (round_half_even (of_int (dt_minute x) / 60 * 4)) / 4) \<and>
         (200 < nrows df \<longrightarrow>
            (\<exists>k. \<bar>of_int k / 10 - of_int (dt_minute x) / 60 :: rat\<bar> \<le> 1 / 20 \<and>
                 time_function df x = float_of (of_int (dt_hour x) + float_of (of_int k / 10)) \<and>
                 \<bar>time_function df x - (of_int (dt_hour x) + of_int k / 10)\<bar> \<le> 1 / 2 ^ 48))"
proof -
  from assms(3,4) have m: "dt_minute x \<in> set [0..59]" by simp
  have b1: "py_round (truediv (dt_minute x) 60) = round_half_even (of_int (dt_minute x) / 60)"
    using whole_hour_steps m by blast
  have b2: "py_round (fmul (truediv (dt_minute x) 60) 2) = round_half_even (of_int (dt_minute x) / 60 * 2)"
    using half_hour_steps m by blast
  have r2: "0 \<le> round_half_even (of_int (dt_minute x) / 60 * 2)"
    "round_half_even (of_int (dt_minute x) / 60 * 2) \<le> 2"
    using half_steps_range m by blast+
  have b3: "py_round (fmul (truediv (dt_minute x) 60) 4) = round_half_even (of_int (dt_minute x) / 60 * 4)"
    using quarter_hour_steps m by blast
  have r3: "0 \<le> round_half_even (of_int (dt_minute x) / 60 * 4)"
    "round_half_even (of_int (dt_minute x) / 60 * 4) \<le> 4"
    using quarter_steps_range m by blast+
  have b4: "\<bar>of_int (round_half_even (truediv (dt_minute x) 60 * 10)) / 10 - of_int (dt_minute x) / 60 :: rat\<bar> \<le> 1 / 20"
    using tenth_hour_steps m by blast
  show ?thesis
  proof (intro conjI impI)
    assume "nrows df \<le> 50"
    then show "time_function df x =
              of_int (dt_hour x) + of_int (round_half_even (of_int (dt_minute x) / 60))"
      by (simp add: time_function_def b1)
  next
    assume "50 < nrows df \<and> nrows df \<le> 100"
    then show "time_function df x =
              of_int (dt_hour x) + of_int (round_half_even (of_int (dt_minute x) / 60 * 2)) / 2"
      using fadd_half[OF assms(1,2) r2] by (simp add: time_function_def b2)
  next
    assume "100 < nrows df \<and> nrows df \<le> 200"
    then show "time_function df x =
              of_int (dt_hour x) + of_int (round_half_even (of_int (dt_minute x) / 60 * 4)) / 4"
      using fadd_quarter[OF assms(1,2) r3] by (simp add: time_function_def b3)
  next
    assume "200 < nrows df"
    then have "time_function df x = float_of (of_int (dt_hour x) +
       float_of (of_int (round_half_even (truediv (dt_minute x) 60 * 10)) / 10))"
      by (simp add: time_function_def fadd_def py_round1_def)
    moreover have "\<bar>float_of (of_int (dt_hour x) +
         float_of (of_int (round_half_even (truediv (dt_minute x) 60 * 10)) / 10)) -
       (of_int (dt_hour x) + of_int (round_half_even (truediv (dt_minute x) 60 * 10)) / 10)\<bar>
       \<le> 1 / 2 ^ 48"
      using tenth_range[OF assms(3,4) b4] by (intro tenth_sum_close assms(1,2)) simp_all
    ultimately show "\<exists>k. \<bar>of_int k / 10 - of_int (dt_minute x) / 60 :: rat\<bar> \<le> 1 / 20 \<and>
                 time_function df x = float_of (of_int (dt_hour x) + float_of (of_int k / 10)) \<and>
                 \<bar>time_function df x - (of_int (dt_hour x) + of_int k / 10)\<bar> \<le> 1 / 2 ^ 48"
      using b4 by (intro exI[of _ "round_half_even (truediv (dt_minute x) 60 * 10)"]) simp
  qed
qed

theorem time_function_precision_witness:
  "time_function \<lparr>nrows = 50, columns = []\<rparr>
     \<lparr>dt_year = 2021, dt_month = 5, dt_day = 1, dt_hour = 14, dt_minute = 45, dt_second = 0\<rparr> = 15 \<and>
   time_function \<lparr>nrows = 100, columns = []\<rparr>
     \<lparr>dt_year = 2021, dt_month = 5, dt_day = 1, dt_hour = 14, dt_minute = 20, dt_second = 0\<rparr> = 14 + 1 / 2 \<and>
   time_function \<lparr>nrows = 200, columns = []\<rparr>
     \<lparr>dt_year = 2021, dt_month = 5, dt_day = 1, dt_hour = 14, dt_minute = 20, dt_second = 0\<rparr> = 14 + 1 / 4 \<and>
   time_function \<lparr>nrows = 201, columns = []\<rparr>
     \<lparr>dt_year = 2021, dt_month = 5, dt_day = 1, dt_hour = 14, dt_minute = 9, dt_second = 0\<rparr> =
     7937594343240499 / 562949953421312"
proof -
  let ?x = "\<lambda>m. \<lparr>dt_year = 2021, dt_month = 5, dt_day = 1, dt_hour = 14, dt_minute = m, dt_second = 0\<rparr>"
  have a: "time_function \<lparr>nrows = 50, columns = []\<rparr> (?x 45) = 15"
    using time_function_precision[of "?x 45" "\<lparr>nrows = 50, columns = []\<rparr>"]
    by (simp add: float_eval)
  have b: "time_function \<lparr>nrows = 100, columns = []\<rparr> (?x 20) = 14 + 1 / 2"
    using time_function_precision[of "?x 20" "\<lparr>nrows = 100, columns = []\<rparr>"]
    by (simp add: float_eval)
  have c: "time_function \<lparr>nrows = 200, columns = []\<rparr> (?x 20) = 14 + 1 / 4"
    using time_function_precision[of "?x 20" "\<lparr>nrows = 200, columns = []\<rparr>"]
    by (simp add: float_eval)
  have d: "time_function \<lparr>nrows = 201, columns = []\<rparr> (?x 9) = 7937594343240499 / 562949953421312"
    by (simp add: time_function_def float_eval)
  from a b c d show ?thesis by simp
qed

text \<open>
  Claim C8. \<^verbatim>\<open>group_data\<close> recognises exactly six tokens, \<^verbatim>\<open>W\<close>, \<^verbatim>\<open>SM\<close>, \<^verbatim>\<open>M\<close>, \<^verbatim>\<open>Q\<close>,
  \<^verbatim>\<open>A\<close> and \<^verbatim>\<open>H\<close> (week, half month, month, quarter, year, hour): for each of them it
  returns the records resampled on \<^verbatim>\<open>TimeStamp\<close> by that token, and for every other
  token it returns nothing.
\<close>

theorem group_data_tokens:
  "(offset_alias \<in> {''W'', ''SM'', ''M'', ''Q'', ''A'', ''H''} \<longrightarrow>
      group_data resample df offset_alias = Some (resample df offset_alias ''TimeStamp'')) \<and>
   (offset_alias \<notin> {''W'', ''SM'', ''M'', ''Q'', ''A'', ''H''} \<longrightarrow>
      group_data resample df offset_alias = None) \<and>
   distinct available_offset \<and> length available_offset = 6"
  by (simp add: group_data_def available_offset_def)

theorem group_data_tokens_witness:
  "group_data (\<lambda>df rule on. (df, rule, on)) [1::nat, 2, 3] ''M'' =
     Some ([1, 2, 3], ''M'', ''TimeStamp'') \<and>
   group_data (\<lambda>df rule on. (df, rule, on)) [1::nat, 2, 3] ''D'' = None"
  using group_data_tokens[of "''M''" "\<lambda>df rule on. (df, rule, on)" "[1::nat, 2, 3]"]
    group_data_tokens[of "''D''" "\<lambda>df rule on. (df, rule, on)" "[1::nat, 2, 3]"]
  by simp

text \<open>
  Claim C9. On a well-formed export (distinct column names, among them
  \<^verbatim>\<open>startdate\<close>, \<^verbatim>\<open>value\<close>, \<^verbatim>\<open>unit\<close>, \<^verbatim>\<open>name\<close> and \<^verbatim>\<open>source\<close>, none called \<^verbatim>\<open>TimeStamp\<close> or
  \<^verbatim>\<open>Repeat\<close>, every column as long as the index, and dates that \<^verbatim>\<open>to_datetime\<close>
  converts one for one) the reader returns a frame with the same number of rows, in
  which the columns \<^verbatim>\<open>unit\<close>, \<^verbatim>\<open>name\<close> and \<^verbatim>\<open>source\<close> are gone, \<^verbatim>\<open>TimeStamp\<close> holds
  the time stamps of \<^verbatim>\<open>startdate\<close>, \<^verbatim>\<open>Repeat\<close> holds the cells of \<^verbatim>\<open>value\<close> unchanged
  and \<^verbatim>\<open>Kind\<close> is \<^verbatim>\<open>Unknown\<close> on every row. Rows keep their positions, since every
  column keeps its order and its length. The example that follows the theorem is
  the export with the one row \<^verbatim>\<open>2021-05-01T14:30:00;3;count;Sex;Manual Entry\<close>.
\<close>

theorem read_activity_whealth_columns:
  assumes rd: "read_csv fp '';'' = Inr df"
    and dist: "distinct (map fst (columns df))"
    and cols: "{''unit'', ''name'', ''source''} \<subseteq> fst ` set (columns df)"
    and fresh: "''TimeStamp'' \<notin> fst ` set (columns df)" "''Repeat'' \<notin> fst ` set (columns df)"
    and sd: "map_of (columns df) ''startdate'' = Some dates"
    and vl: "map_of (columns df) ''value'' = Some vals"
    and td: "to_datetime dates = Inr stamps"
    and wf: "\<forall>col \<in> set (columns df). length (snd col) = nrows df"
    and len: "length stamps = length dates"
  shows "\<exists>out. read_activity_whealth read_csv to_datetime fp = Inr out \<and>
           nrows out = nrows df \<and>
           map_of (columns out) ''TimeStamp'' = Some stamps \<and>
           map_of (columns out) ''Repeat'' = Some vals \<and>
           map_of (columns out) ''Kind'' = Some (replicate (nrows df) (Str ''Unknown'')) \<and>
           fst ` set (columns out) \<inter> {''unit'', ''name'', ''source'', ''startdate'', ''value''} = {} \<and>
           (\<forall>col \<in> set (columns out). length (snd col) = nrows df)"
proof -
  define ren where "ren = (\<lambda>c. case map_of [(''startdate'', ''TimeStamp''), (''value'', ''Repeat'')] c of
                     None \<Rightarrow> c | Some c' \<Rightarrow> c')"
  define keep where "keep = (\<lambda>c. c \<notin> set [''unit'', ''name'', ''source''])"
  define c1 where "c1 = filter (\<lambda>col. keep (fst col)) (columns df)"
  define c2 where "c2 = map (\<lambda>col. (ren (fst col), snd col)) c1"
  have ren: "ren ''startdate'' = ''TimeStamp''" "ren ''value'' = ''Repeat''"
    by (simp_all add: ren_def)
  have d1: "drop_columns [''unit'', ''name'', ''source''] df = Inr (df\<lparr>columns := c1\<rparr>)"
    using cols by (simp add: drop_columns_def c1_def keep_def)
  have rn: "rename_columns [(''startdate'', ''TimeStamp''), (''value'', ''Repeat'')]
              (df\<lparr>columns := c1\<rparr>) = df\<lparr>columns := c2\<rparr>"
    by (simp add: rename_columns_def c2_def ren_def)
  have k1: "fst ` set c1 \<subseteq> fst ` set (columns df)" by (auto simp: c1_def)
  have dist1: "distinct (map fst c1)" unfolding c1_def using dist by (rule distinct_map_filter)
  have inj: "inj_on ren K" if "K \<subseteq> fst ` set (columns df)" for K
    unfolding ren_def by (rule rename_inj) (use fresh that in auto)
  have sd1: "map_of c1 ''startdate'' = Some dates"
    unfolding c1_def map_of_filter_keys using sd by (simp add: keep_def)
  have vl1: "map_of c1 ''value'' = Some vals"
    unfolding c1_def map_of_filter_keys using vl by (simp add: keep_def)
  have sdk: "''startdate'' \<in> fst ` set (columns df)" using sd by (force dest: map_of_SomeD)
  have vlk: "''value'' \<in> fst ` set (columns df)" using vl by (force dest: map_of_SomeD)
  have ts2: "map_of c2 ''TimeStamp'' = Some dates"
    using map_of_renamed[of ren "''startdate''" c1] inj[of "insert ''startdate'' (fst ` set c1)"]
      sdk k1 sd1 ren by (auto simp: c2_def)
  have rp2: "map_of c2 ''Repeat'' = Some vals"
    using map_of_renamed[of ren "''value''" c1] inj[of "insert ''value'' (fst ` set c1)"]
      vlk k1 vl1 ren by (auto simp: c2_def)
  have dist2: "distinct (map fst c2)"
  proof -
    have "map fst c2 = map ren (map fst c1)" by (simp add: c2_def comp_def)
    moreover have "inj_on ren (set (map fst c1))" using inj[of "fst ` set c1"] k1 by simp
    ultimately show ?thesis using dist1 by (simp only: distinct_map)
  qed
  have g: "get_column ''TimeStamp'' (df\<lparr>columns := c2\<rparr>) = Inr dates"
    using filter_key_single[OF dist2 ts2] by (simp add: get_column_def)
  have k2: "fst ` set c2 \<inter> {''unit'', ''name'', ''source'', ''startdate'', ''value''} = {}"
    by (auto simp: c2_def c1_def ren_def keep_def split: if_splits)
  let ?out = "df\<lparr>columns := update_column ''Kind'' (replicate (nrows df) (Str ''Unknown''))
                 (update_column ''TimeStamp'' stamps c2)\<rparr>"
  have res: "read_activity_whealth read_csv to_datetime fp = Inr ?out"
    using rd d1 rn g td
    by (simp add: read_activity_whealth_def Let_def set_column_def)
  have "(''startdate'', dates) \<in> set (columns df)" using sd by (rule map_of_SomeD)
  with wf len have ls: "length stamps = nrows df" by auto
  have w2: "\<forall>col \<in> set c2. length (snd col) = nrows df"
    using wf by (auto simp: c2_def c1_def)
  have wo: "\<forall>col \<in> set (columns ?out). length (snd col) = nrows df"
    using w2 ls set_update_column[of "''Kind''" _ "update_column ''TimeStamp'' stamps c2"]
      set_update_column[of "''TimeStamp''" stamps c2]
    by fastforce
  show ?thesis
    apply (rule exI[of _ ?out])
    using res ts2 rp2 k2 wo
    by (simp add: map_of_update_column keys_update_column)
qed

theorem read_activity_whealth_columns_witness:
  "read_activity_whealth
     (\<lambda>fp sep. if sep = '';'' then
        Inr \<lparr>nrows = 1,
             columns = [(''startdate'', [Str ''2021-05-01T14:30:00'']), (''value'', [Num 3]),
                        (''unit'', [Str ''count'']), (''name'', [Str ''Sex'']),
                        (''source'', [Str ''Manual Entry''])]\<rparr>
        else Inl ValueError)
     (\<lambda>col. if col = [Str ''2021-05-01T14:30:00'']
        then Inr [Stamp \<lparr>dt_year = 2021, dt_month = 5, dt_day = 1, dt_hour = 14,
                         dt_minute = 30, dt_second = 0\<rparr>]
        else Inl ValueError)
     ''health.csv'' =
   Inr \<lparr>nrows = 1,
        columns = [(''TimeStamp'', [Stamp \<lparr>dt_year = 2021, dt_month = 5, dt_day = 1,
                                          dt_hour = 14, dt_minute = 30, dt_second = 0\<rparr>]),
                   (''Repeat'', [Num 3]), (''Kind'', [Str ''Unknown''])]\<rparr>"
proof -
  let ?df = "\<lparr>nrows = 1,
             columns = [(''startdate'', [Str ''2021-05-01T14:30:00'']), (''value'', [Num 3]),
                        (''unit'', [Str ''count'']), (''name'', [Str ''Sex'']),
                        (''source'', [Str ''Manual Entry''])]\<rparr>"
  let ?rc = "\<lambda>(fp :: string) sep. if sep = '';'' then Inr ?df else Inl ValueError"
  let ?st = "[Stamp \<lparr>dt_year = 2021, dt_month = 5, dt_day = 1, dt_hour = 14,
                         dt_minute = 30, dt_second = 0\<rparr>]"
  let ?td = "\<lambda>col. if col = [Str ''2021-05-01T14:30:00''] then Inr ?st else Inl ValueError"
  have "\<exists>out. read_activity_whealth ?rc ?td ''health.csv'' = Inr out \<and>
           nrows out = nrows ?df \<and>
           map_of (columns out) ''TimeStamp'' = Some ?st \<and>
           map_of (columns out) ''Repeat'' = Some [Num 3] \<and>
           map_of (columns out) ''Kind'' = Some (replicate (nrows ?df) (Str ''Unknown'')) \<and>
           fst ` set (columns out) \<inter> {''unit'', ''name'', ''source'', ''startdate'', ''value''} = {} \<and>
           (\<forall>col \<in> set (columns out). length (snd col) = nrows ?df)"
    by (rule read_activity_whealth_columns[where dates = "[Str ''2021-05-01T14:30:00'']"]) simp_all
  moreover have "read_activity_whealth ?rc ?td ''health.csv'' =
   Inr \<lparr>nrows = 1,
        columns = [(''TimeStamp'', ?st), (''Repeat'', [Num 3]), (''Kind'', [Str ''Unknown''])]\<rparr>"
    by (simp add: read_activity_whealth_def drop_columns_def rename_columns_def get_column_def
        set_column_def)
  ultimately show ?thesis by simp
qed

end
